theory Spec2Isabelle
  imports Complex_Main
begin

section \<open>Python values shared by the two scripts\<close>

text \<open>
  Exceptions are values. \<open>Exception\<close> stands for any instance of Python's class
  \<open>Exception\<close> that is none of the more specific ones below (the connection errors of
  the link are of this kind); \<open>KeyboardInterrupt\<close> and \<open>SystemExit\<close> derive from
  \<open>BaseException\<close> only, so a clause \<open>except Exception\<close> does not catch them.
\<close>

datatype exn =
    Exception string
  | KeyError string
  | IndexError
  | ValueError
  | OverflowError
  | KeyboardInterrupt
  | SystemExit

fun is_Exception :: "exn \<Rightarrow> bool" where
  "is_Exception KeyboardInterrupt = False"
| "is_Exception SystemExit = False"
| "is_Exception _ = True"

section \<open>\<open>collections.deque\<close> with a maximum length\<close>

text \<open>
  \<open>deque(maxlen=N)\<close>: appending puts the value at the right end and, when the length
  then exceeds \<open>maxlen\<close>, drops the leftmost value.
\<close>

record 'a deque =
  maxlen :: nat
  items :: "'a list"

definition deque :: "nat \<Rightarrow> 'a deque" where
  "deque n = \<lparr>maxlen = n, items = []\<rparr>"

definition append_deque :: "'a deque \<Rightarrow> 'a \<Rightarrow> 'a deque" where
  "append_deque d x =
     (let ys = items d @ [x]
      in d\<lparr>items := (if maxlen d < length ys then tl ys else ys)\<rparr>)"

definition len :: "'a deque \<Rightarrow> nat" where
  "len d = length (items d)"

text \<open>\<open>list(d)\<close>: the contents from the oldest to the newest.\<close>

definition list_of :: "'a deque \<Rightarrow> 'a list" where
  "list_of d = items d"

text \<open>\<open>d[0]\<close>, \<open>xs[-1]\<close>, \<open>min(xs)\<close> and \<open>max(xs)\<close> raise on an empty sequence.\<close>

fun getitem_first :: "'a list \<Rightarrow> exn + 'a" where
  "getitem_first [] = Inl IndexError"
| "getitem_first (x # xs) = Inr x"

fun getitem_last :: "'a list \<Rightarrow> exn + 'a" where
  "getitem_last [] = Inl IndexError"
| "getitem_last (x # xs) = Inr (last (x # xs))"

fun py_min :: "real list \<Rightarrow> exn + real" where
  "py_min [] = Inl ValueError"
| "py_min (x # xs) = Inr (fold min xs x)"

fun py_max :: "real list \<Rightarrow> exn + real" where
  "py_max [] = Inl ValueError"
| "py_max (x # xs) = Inr (fold max xs x)"

text \<open>\<open>d[k]\<close> on a dictionary raises \<open>KeyError\<close> for a missing key.\<close>

definition getitem_dict :: "(string \<rightharpoonup> real) \<Rightarrow> string \<Rightarrow> exn + real" where
  "getitem_dict d k = (case d k of None \<Rightarrow> Inl (KeyError k) | Some v \<Rightarrow> Inr v)"

definition try_bind :: "exn + 'a \<Rightarrow> ('a \<Rightarrow> exn + 'b) \<Rightarrow> exn + 'b" where
  "try_bind m f = (case m of Inl e \<Rightarrow> Inl e | Inr x \<Rightarrow> f x)"

section \<open>\<open>scripts/test_basiclog.py\<close>: the shared state\<close>

text \<open>
  A log entry is the triple the logger yields: the timestamp in milliseconds, the
  dictionary of the logged variables and the name of the log configuration.
\<close>

type_synonym log_entry = "int \<times> (string \<rightharpoonup> real) \<times> string"

text \<open>The variables added to the log configuration \<open>lg_stab\<close>.\<close>

definition lg_stab :: "string list" where
  "lg_stab = [''stabilizer.roll'', ''stabilizer.pitch'', ''stabilizer.yaw'']"

text \<open>A frame of that subscription carries a value for each of its variables.\<close>

definition subscribed :: "log_entry \<Rightarrow> bool" where
  "subscribed f = list_all (\<lambda>k. fst (snd f) k \<noteq> None) lg_stab"

text \<open>The statements of the critical section of the acquisition loop, by line.\<close>

datatype line = L145 | L146 | L147 | L148 | L149

text \<open>
  The control point of the acquisition thread: before the link is opened, before the
  logger is connected, waiting for the next entry, before the test of \<open>running\<close>,
  waiting for the lock, inside the critical section, before the print and the test of
  the deadline, and after the function has returned or let an exception escape.
\<close>

datatype acq_pc =
    AtConnect
  | AtLogger
  | AtNext
  | AtCheck log_entry
  | AtAppend log_entry
  | InLock line log_entry
  | AtDeadline log_entry
  | Returned
  | Raised exn

text \<open>
  The control point of the main thread: in the \<open>while\<close> loop (where the render timer
  fires), after the loop (joining the thread), finished, or ended by an exception.
\<close>

datatype main_pc = MainLoop | MainJoin | MainExit | MainRaised exn

datatype msg =
    Connected
  | FrameLine log_entry
  | ErrorConnecting exn
  | CheckDrone
  | Stopping
  | Total int

text \<open>What one call of \<open>animate\<close> draws.\<close>

datatype render =
    Plot (p_times: "real list") (p_roll: "real list") (p_pitch: "real list")
         (p_yaw: "real list") (p_count: int)
         (p_ylim: "(real \<times> real) option") (p_xlim: "(real \<times> real) option")
  | Placeholder int

record state =
  timestamps :: "int deque"
  roll_data :: "real deque"
  pitch_data :: "real deque"
  yaw_data :: "real deque"
  locked :: bool
  data_count :: int
  running :: bool
  clock :: real
  endTime :: real
  acq :: acq_pc
  main_pc :: main_pc
  out :: "msg list"
  screen :: "render list"

definition init_state :: state where
  "init_state =
     \<lparr>timestamps = deque 1000, roll_data = deque 1000,
      pitch_data = deque 1000, yaw_data = deque 1000,
      locked = False, data_count = 0, running = True,
      clock = 0, endTime = 0, acq = AtConnect, main_pc = MainLoop,
      out = [], screen = []\<rparr>"

definition buffers :: "state \<Rightarrow> int deque \<times> real deque \<times> real deque \<times> real deque" where
  "buffers s = (timestamps s, roll_data s, pitch_data s, yaw_data s)"

section \<open>\<open>animate\<close>\<close>

text \<open>
  What \<open>animate\<close> computes and hands to the plotting calls, for channel values that are
  finite numbers: the arithmetic is that of the reals (the rounding of the doubles is
  not modelled) and the plotting calls are taken to accept what they are given. The
  calls that can refuse their arguments, and values that are not finite, are the subject
  of \<open>animate_backend\<close> below.
\<close>

definition y_limits :: "real list \<Rightarrow> exn + (real \<times> real) option" where
  "y_limits all_data =
     (if all_data \<noteq> [] then
        try_bind (py_min all_data) (\<lambda>y_min.
        try_bind (py_max all_data) (\<lambda>y_max.
          let margin = (if y_max \<noteq> y_min then (y_max - y_min) * 0.2 else 2)
          in Inr (Some (y_min - margin, y_max + margin))))
      else Inr None)"

definition x_limits :: "real list \<Rightarrow> exn + (real \<times> real) option" where
  "x_limits times_plot =
     (if length times_plot > 0 then
        try_bind (getitem_last times_plot) (\<lambda>t. Inr (Some (0, t + 0.5)))
      else Inr None)"

definition animate :: "state \<Rightarrow> exn + render" where
  "animate s =
     (if len (timestamps s) > 2 then
        try_bind (getitem_first (items (timestamps s))) (\<lambda>start_time.
          let times = map (\<lambda>t. real_of_int (t - start_time) / 1000) (list_of (timestamps s));
              roll_plot = list_of (roll_data s);
              pitch_plot = list_of (pitch_data s);
              yaw_plot = list_of (yaw_data s)
          in try_bind (y_limits (roll_plot @ pitch_plot @ yaw_plot)) (\<lambda>ylim.
             try_bind (x_limits times) (\<lambda>xlim.
               Inr (Plot times roll_plot pitch_plot yaw_plot (data_count s) ylim xlim))))
      else Inr (Placeholder (data_count s)))"

section \<open>\<open>animate\<close> with doubles and the checks of the plotting calls\<close>

text \<open>
  A Python float: a finite number, an infinity, or not a number. The finite values are
  not rounded here; a result whose magnitude reaches \<open>2 ^ 1024 - 2 ^ 970\<close>, the first
  real that rounds to infinity, is an infinity.
\<close>

datatype double = Finite real | PosInf | NegInf | NaN

definition double_limit :: real where
  "double_limit = 2 ^ 1024 - 2 ^ 970"

definition to_double :: "real \<Rightarrow> double" where
  "to_double x =
     (if double_limit \<le> x then PosInf
      else if x \<le> - double_limit then NegInf
      else Finite x)"

fun d_neg :: "double \<Rightarrow> double" where
  "d_neg (Finite x) = Finite (- x)"
| "d_neg PosInf = NegInf"
| "d_neg NegInf = PosInf"
| "d_neg NaN = NaN"

fun d_add :: "double \<Rightarrow> double \<Rightarrow> double" where
  "d_add NaN b = NaN"
| "d_add a NaN = NaN"
| "d_add (Finite x) (Finite y) = to_double (x + y)"
| "d_add PosInf NegInf = NaN"
| "d_add NegInf PosInf = NaN"
| "d_add PosInf b = PosInf"
| "d_add a PosInf = PosInf"
| "d_add NegInf b = NegInf"
| "d_add a NegInf = NegInf"

definition d_sub :: "double \<Rightarrow> double \<Rightarrow> double" where
  "d_sub a b = d_add a (d_neg b)"

text \<open>The sign of a double that is a number: \<open>-1\<close>, \<open>0\<close> or \<open>1\<close>.\<close>

fun d_sign :: "double \<Rightarrow> int" where
  "d_sign (Finite x) = (if x < 0 then - 1 else if x = 0 then 0 else 1)"
| "d_sign PosInf = 1"
| "d_sign NegInf = - 1"
| "d_sign NaN = 0"

fun d_mul :: "double \<Rightarrow> double \<Rightarrow> double" where
  "d_mul NaN b = NaN"
| "d_mul a NaN = NaN"
| "d_mul (Finite x) (Finite y) = to_double (x * y)"
| "d_mul a b =
     (if d_sign a * d_sign b = 0 then NaN
      else if 0 < d_sign a * d_sign b then PosInf else NegInf)"

text \<open>\<open>a < b\<close> and \<open>a != b\<close> on floats: every comparison with not-a-number is false,
  so \<open>!=\<close> with it is true.\<close>

fun d_lt :: "double \<Rightarrow> double \<Rightarrow> bool" where
  "d_lt NaN b = False"
| "d_lt a NaN = False"
| "d_lt (Finite x) (Finite y) = (x < y)"
| "d_lt NegInf NegInf = False"
| "d_lt NegInf b = True"
| "d_lt a NegInf = False"
| "d_lt PosInf b = False"
| "d_lt a PosInf = True"

fun d_ne :: "double \<Rightarrow> double \<Rightarrow> bool" where
  "d_ne NaN b = True"
| "d_ne a NaN = True"
| "d_ne a b = (a \<noteq> b)"

fun is_finite :: "double \<Rightarrow> bool" where
  "is_finite (Finite x) = True"
| "is_finite d = False"

text \<open>
  \<open>min(xs)\<close> and \<open>max(xs)\<close> keep the first item and replace it by a later one that
  compares smaller (larger); they raise on an empty list.
\<close>

fun double_min :: "double list \<Rightarrow> exn + double" where
  "double_min [] = Inl ValueError"
| "double_min (x # xs) = Inr (fold (\<lambda>y m. if d_lt y m then y else m) xs x)"

fun double_max :: "double list \<Rightarrow> exn + double" where
  "double_max [] = Inl ValueError"
| "double_max (x # xs) = Inr (fold (\<lambda>y m. if d_lt m y then y else m) xs x)"

text \<open>
  \<open>n / 1000.0\<close> for an integer \<open>n\<close>: the integer is converted to a float first, which
  raises \<open>OverflowError\<close> when it is too large.
\<close>

definition fits_double :: "int \<Rightarrow> bool" where
  "fits_double n = (\<bar>real_of_int n\<bar> < double_limit)"

definition int_div_1000 :: "int \<Rightarrow> exn + double" where
  "int_div_1000 n =
     (if fits_double n then Inr (to_double (real_of_int n / 1000)) else Inl OverflowError)"

text \<open>The list comprehension of line 52.\<close>

fun times_since :: "int \<Rightarrow> int list \<Rightarrow> exn + double list" where
  "times_since start_time [] = Inr []"
| "times_since start_time (t # ts) =
     try_bind (int_div_1000 (t - start_time)) (\<lambda>x.
     try_bind (times_since start_time ts) (\<lambda>xs. Inr (x # xs)))"

text \<open>
  The two checks of the plotting backend that the arguments of \<open>animate\<close> can fail:
  \<open>ax.plot(x, y)\<close> raises \<open>ValueError\<close> when \<open>x\<close> and \<open>y\<close> differ in length, and
  \<open>ax.set_ylim\<close> and \<open>ax.set_xlim\<close> raise \<open>ValueError\<close> for a limit that is not a
  finite number.
\<close>

definition ax_plot :: "double list \<Rightarrow> double list \<Rightarrow> exn + unit" where
  "ax_plot xs ys = (if length xs = length ys then Inr () else Inl ValueError)"

definition set_lim :: "double \<Rightarrow> double \<Rightarrow> exn + unit" where
  "set_lim lo hi = (if is_finite lo \<and> is_finite hi then Inr () else Inl ValueError)"

text \<open>Lines 83 to 89.\<close>

definition set_y_limits :: "double list \<Rightarrow> exn + unit" where
  "set_y_limits all_data =
     (if all_data \<noteq> [] then
        try_bind (double_min all_data) (\<lambda>y_min.
        try_bind (double_max all_data) (\<lambda>y_max.
          let margin = (if d_ne y_max y_min then d_mul (d_sub y_max y_min) (Finite 0.2)
                        else Finite 2)
          in try_bind (set_lim (d_sub y_min margin) (d_add y_max margin)) (\<lambda>u1.
             try_bind (set_lim (d_sub y_min margin) (d_add y_max margin)) (\<lambda>u2.
             set_lim (d_sub y_min margin) (d_add y_max margin)))))
      else Inr ())"

text \<open>Lines 92 to 97.\<close>

definition set_x_limits :: "double list \<Rightarrow> exn + unit" where
  "set_x_limits times_plot =
     (if length times_plot > 0 then
        try_bind (getitem_last times_plot) (\<lambda>t.
          let x_max = d_add t (Finite 0.5)
          in try_bind (set_lim (Finite 0) x_max) (\<lambda>u1.
             try_bind (set_lim (Finite 0) x_max) (\<lambda>u2.
             set_lim (Finite 0) x_max)))
      else Inr ())"

text \<open>Which of the two drawings a call of \<open>animate\<close> has made.\<close>

datatype drawn = Plotted | Waiting

text \<open>
  The body of \<open>animate\<close> on the contents of the four buffers, with every step that
  can raise: the first timestamp, the list of times, the three plots (lines 66, 72 and
  77), the limits. Clearing the axes, the labels, the titles, the grids and the texts of
  the placeholder do not depend on the buffers; drawing the canvas afterwards is taken
  to return.
\<close>

definition animate_backend ::
  "int list \<Rightarrow> double list \<Rightarrow> double list \<Rightarrow> double list \<Rightarrow> exn + drawn" where
  "animate_backend timestamps_now roll_now pitch_now yaw_now =
     (if length timestamps_now > 2 then
        try_bind (getitem_first timestamps_now) (\<lambda>start_time.
        try_bind (times_since start_time timestamps_now) (\<lambda>times_plot.
        try_bind (ax_plot times_plot roll_now) (\<lambda>u1.
        try_bind (ax_plot times_plot pitch_now) (\<lambda>u2.
        try_bind (ax_plot times_plot yaw_now) (\<lambda>u3.
        try_bind (set_y_limits (roll_now @ pitch_now @ yaw_now)) (\<lambda>u4.
        try_bind (set_x_limits times_plot) (\<lambda>u5.
          Inr Plotted)))))))
      else Inr Waiting)"

text \<open>
  The buffers of a state of the run, whose channel values are finite numbers, as
  \<open>animate\<close> reads them.
\<close>

definition tick :: "state \<Rightarrow> exn + drawn" where
  "tick s =
     animate_backend (list_of (timestamps s)) (map Finite (list_of (roll_data s)))
       (map Finite (list_of (pitch_data s))) (map Finite (list_of (yaw_data s)))"

text \<open>A channel value as the link delivers it: a 32-bit float that is a number.\<close>

fun float32 :: "double \<Rightarrow> bool" where
  "float32 (Finite x) = (\<bar>x\<bar> \<le> 2 ^ 128)"
| "float32 d = False"

text \<open>All time differences of the buffer fit a float.\<close>

definition times_fit :: "int list \<Rightarrow> bool" where
  "times_fit ts = list_all (\<lambda>t. fits_double (t - hd ts)) ts"

text \<open>A time of the plot: a finite number a thousandth of which fits.\<close>

fun is_time :: "double \<Rightarrow> bool" where
  "is_time (Finite r) = (\<bar>r\<bar> * 1000 < double_limit)"
| "is_time d = False"

text \<open>The channel values buffered in a state of the run are 32-bit floats.\<close>

definition values32 :: "state \<Rightarrow> bool" where
  "values32 s =
     list_all (\<lambda>v. \<bar>v\<bar> \<le> 2 ^ 128)
       (list_of (roll_data s) @ list_of (pitch_data s) @ list_of (yaw_data s))"

section \<open>\<open>data_collection_thread\<close> and the main loop, step by step\<close>

text \<open>One statement of the critical section (lines 145 to 149).\<close>

fun critical :: "line \<Rightarrow> log_entry \<Rightarrow> state \<Rightarrow> exn + state" where
  "critical L145 (timestamp, data, name) s =
     Inr (s\<lparr>timestamps := append_deque (timestamps s) timestamp\<rparr>)"
| "critical L146 (timestamp, data, name) s =
     try_bind (getitem_dict data ''stabilizer.roll'') (\<lambda>v.
       Inr (s\<lparr>roll_data := append_deque (roll_data s) v\<rparr>))"
| "critical L147 (timestamp, data, name) s =
     try_bind (getitem_dict data ''stabilizer.pitch'') (\<lambda>v.
       Inr (s\<lparr>pitch_data := append_deque (pitch_data s) v\<rparr>))"
| "critical L148 (timestamp, data, name) s =
     try_bind (getitem_dict data ''stabilizer.yaw'') (\<lambda>v.
       Inr (s\<lparr>yaw_data := append_deque (yaw_data s) v\<rparr>))"
| "critical L149 (timestamp, data, name) s =
     Inr (s\<lparr>data_count := data_count s + 1\<rparr>)"

fun next_line :: "line \<Rightarrow> line option" where
  "next_line L145 = Some L146"
| "next_line L146 = Some L147"
| "next_line L147 = Some L148"
| "next_line L148 = Some L149"
| "next_line L149 = None"

text \<open>
  The clause \<open>except Exception as e\<close> around the body of the thread: an instance of
  \<open>Exception\<close> is reported with two printed lines and the function returns; anything
  else leaves the function.
\<close>

definition except_Exception :: "exn \<Rightarrow> state \<Rightarrow> state" where
  "except_Exception e s =
     (if is_Exception e
      then s\<lparr>acq := Returned, out := out s @ [ErrorConnecting e, CheckDrone]\<rparr>
      else s\<lparr>acq := Raised e\<rparr>)"

definition is_alive :: "state \<Rightarrow> bool" where
  "is_alive s = (case acq s of Returned \<Rightarrow> False | Raised e \<Rightarrow> False | _ \<Rightarrow> True)"

text \<open>
  What can happen next. The link decides the first three: opening the link returns or
  raises, connecting the logger returns or raises, and the logger's iterator yields an
  entry, ends, or raises. \<open>Acq\<close> lets the acquisition thread execute its next statement,
  \<open>Time\<close> is the wall clock moving, \<open>Tick\<close> the render timer calling \<open>animate\<close>,
  \<open>LoopTest\<close> the main thread evaluating the condition of its loop, \<open>Interrupt\<close> a
  keyboard interrupt delivered to the main thread, \<open>Join\<close> the main thread's attempt
  to join the acquisition thread.
\<close>

datatype event =
    LinkOpened "exn option"
  | LoggerConnected "exn option"
  | Next "exn + log_entry option"
  | Acq
  | Time real
  | Tick
  | LoopTest
  | Interrupt
  | Join

fun acq_step :: "acq_pc \<Rightarrow> state \<Rightarrow> state" where
  "acq_step (AtCheck f) s =
     (if \<not> running s then s\<lparr>acq := Returned\<rparr> else s\<lparr>acq := AtAppend f\<rparr>)"
| "acq_step (AtAppend f) s =
     (if locked s then s else s\<lparr>locked := True, acq := InLock L145 f\<rparr>)"
| "acq_step (InLock l f) s =
     (case critical l f s of
        Inl e \<Rightarrow> except_Exception e (s\<lparr>locked := False\<rparr>)
      | Inr s' \<Rightarrow>
          (case next_line l of
             Some l' \<Rightarrow> s'\<lparr>acq := InLock l' f\<rparr>
           | None \<Rightarrow> s'\<lparr>locked := False, acq := AtDeadline f\<rparr>))"
| "acq_step (AtDeadline f) s =
     (let s' = s\<lparr>out := out s @ [FrameLine f]\<rparr>
      in if clock s > endTime s then s'\<lparr>acq := Returned\<rparr> else s'\<lparr>acq := AtNext\<rparr>)"
| "acq_step _ s = s"

fun step :: "state \<Rightarrow> event \<Rightarrow> state" where
  "step s (LinkOpened r) =
     (case acq s of
        AtConnect \<Rightarrow>
          (case r of
             None \<Rightarrow> s\<lparr>acq := AtLogger, out := out s @ [Connected]\<rparr>
           | Some e \<Rightarrow> except_Exception e s)
      | _ \<Rightarrow> s)"
| "step s (LoggerConnected r) =
     (case acq s of
        AtLogger \<Rightarrow>
          (case r of
             None \<Rightarrow> s\<lparr>endTime := clock s + 60, acq := AtNext\<rparr>
           | Some e \<Rightarrow> except_Exception e s)
      | _ \<Rightarrow> s)"
| "step s (Next r) =
     (case acq s of
        AtNext \<Rightarrow>
          (case r of
             Inl e \<Rightarrow> except_Exception e s
           | Inr None \<Rightarrow> s\<lparr>acq := Returned\<rparr>
           | Inr (Some log_entry) \<Rightarrow> s\<lparr>acq := AtCheck log_entry\<rparr>)
      | _ \<Rightarrow> s)"
| "step s Acq = acq_step (acq s) s"
| "step s (Time t) = s\<lparr>clock := t\<rparr>"
| "step s Tick =
     (case main_pc s of
        MainLoop \<Rightarrow>
          (if locked s then s
           else (case animate s of
                   Inr r \<Rightarrow> s\<lparr>screen := screen s @ [r]\<rparr>
                 | Inl e \<Rightarrow> s\<lparr>main_pc := MainRaised e\<rparr>))
      | _ \<Rightarrow> s)"
| "step s LoopTest =
     (case main_pc s of
        MainLoop \<Rightarrow> (if running s \<and> is_alive s then s else s\<lparr>main_pc := MainJoin\<rparr>)
      | _ \<Rightarrow> s)"
| "step s Interrupt =
     (case main_pc s of
        MainLoop \<Rightarrow> s\<lparr>running := False, main_pc := MainJoin, out := out s @ [Stopping]\<rparr>
      | MainJoin \<Rightarrow> s\<lparr>main_pc := MainRaised KeyboardInterrupt\<rparr>
      | _ \<Rightarrow> s)"
| "step s Join =
     (case main_pc s of
        MainJoin \<Rightarrow>
          (if is_alive s then s
           else s\<lparr>main_pc := MainExit, out := out s @ [Total (data_count s)]\<rparr>)
      | _ \<Rightarrow> s)"

definition run :: "state \<Rightarrow> event list \<Rightarrow> state" where
  "run s es = foldl step s es"

text \<open>The entries the link delivers are those of the subscription.\<close>

fun event_ok :: "event \<Rightarrow> bool" where
  "event_ok (Next (Inr (Some f))) = subscribed f"
| "event_ok _ = True"

section \<open>\<open>scripts/test_hover.py\<close>\<close>

text \<open>
  The calls the script makes, in the order of the program text. \<open>Open_link\<close> and
  \<open>Close_link\<close> are what entering and leaving the \<open>SyncCrazyflie\<close> scope do,
  \<open>Take_off\<close> and \<open>Land\<close> what entering and leaving the \<open>MotionCommander\<close>
  scope do (the script's comments: "We take off when the commander is created", "We land
  when the MotionCommander goes out of scope").
\<close>

datatype cmd =
    Open_link
  | Send_arming_request bool
  | Sleep real
  | Take_off
  | Up real
  | Down real
  | Stop
  | Land
  | Close_link

text \<open>
  The vehicle, the radio and the keyboard decide whether a call returns or raises: the
  outcome of the call made as the \<open>n\<close>-th one (counting from 0).
\<close>

type_synonym link = "nat \<Rightarrow> cmd \<Rightarrow> exn option"

text \<open>An action extends the list of calls made so far and returns or raises.\<close>

type_synonym action = "cmd list \<Rightarrow> (exn + unit) \<times> cmd list"

definition issue :: "link \<Rightarrow> cmd \<Rightarrow> action" where
  "issue env c tr =
     ((case env (length tr) c of None \<Rightarrow> Inr () | Some e \<Rightarrow> Inl e), tr @ [c])"

text \<open>Statements one after the other: the first that raises ends the block.\<close>

fun perform :: "link \<Rightarrow> cmd list \<Rightarrow> action" where
  "perform env [] tr = (Inr (), tr)"
| "perform env (c # cs) tr =
     (case issue env c tr of
        (Inl e, tr') \<Rightarrow> (Inl e, tr')
      | (Inr u, tr') \<Rightarrow> perform env cs tr')"

definition seq :: "action \<Rightarrow> action \<Rightarrow> action" where
  "seq a b tr = (case a tr of (Inl e, tr') \<Rightarrow> (Inl e, tr') | (Inr u, tr') \<Rightarrow> b tr')"

text \<open>
  Python's \<open>with\<close> statement for a context manager whose \<open>__exit__\<close> returns
  \<open>None\<close>: when \<open>__enter__\<close> raises, neither the body nor \<open>__exit__\<close> runs; otherwise
  \<open>__exit__\<close> runs after the body, however the body ended; an exception of the body is
  raised again after \<open>__exit__\<close> has returned, and an exception of \<open>__exit__\<close> itself
  takes its place.
\<close>

definition with_stmt :: "action \<Rightarrow> action \<Rightarrow> action \<Rightarrow> action" where
  "with_stmt enter exit body tr =
     (case enter tr of
        (Inl e, tr1) \<Rightarrow> (Inl e, tr1)
      | (Inr u, tr1) \<Rightarrow>
          (case body tr1 of
             (Inr v, tr2) \<Rightarrow> exit tr2
           | (Inl e, tr2) \<Rightarrow>
               (case exit tr2 of
                  (Inl e', tr3) \<Rightarrow> (Inl e', tr3)
                | (Inr w, tr3) \<Rightarrow> (Inl e, tr3))))"

text \<open>The body of the \<open>MotionCommander\<close> scope (lines 27 to 37).\<close>

definition flight_script :: "cmd list" where
  "flight_script = [Sleep 1, Up 0.7, Down 0.7, Sleep 1, Stop]"

text \<open>The statements before it in the \<open>SyncCrazyflie\<close> scope (lines 22 and 23).\<close>

definition arming :: "cmd list" where
  "arming = [Send_arming_request True, Sleep 1.0]"

definition hover_main :: "link \<Rightarrow> action" where
  "hover_main env =
     with_stmt (issue env Open_link) (issue env Close_link)
       (seq (perform env arming)
            (with_stmt (issue env Take_off) (issue env Land)
               (perform env flight_script)))"

text \<open>The link of the test scenario: the ascent times out, every other call returns.\<close>

definition ascend_times_out :: link where
  "ascend_times_out n c = (if c = Up 0.7 then Some (Exception ''MotionTimeout'') else None)"

text \<open>A keyboard interrupt arrives during the last sleep of the script.\<close>

definition interrupted :: link where
  "interrupted n c = (if n = 7 then Some KeyboardInterrupt else None)"

text \<open>A link on which every call returns.\<close>

definition all_ok :: link where
  "all_ok n c = None"

section \<open>Properties of states used in the statements below\<close>

text \<open>The four series hold the same number of values.\<close>

definition eq_len :: "state \<Rightarrow> bool" where
  "eq_len s =
     (len (roll_data s) = len (timestamps s)
      \<and> len (pitch_data s) = len (timestamps s)
      \<and> len (yaw_data s) = len (timestamps s))"

text \<open>The length of a series of capacity 1000 after one more value.\<close>

definition bump :: "nat \<Rightarrow> nat" where
  "bump n = min (Suc n) 1000"

text \<open>The lengths inside the critical section, before the given line is executed.\<close>

fun in_section :: "line \<Rightarrow> state \<Rightarrow> bool" where
  "in_section L145 s = eq_len s"
| "in_section L146 s =
     (len (timestamps s) = bump (len (roll_data s))
      \<and> len (pitch_data s) = len (roll_data s)
      \<and> len (yaw_data s) = len (roll_data s))"
| "in_section L147 s =
     (len (timestamps s) = bump (len (pitch_data s))
      \<and> len (roll_data s) = bump (len (pitch_data s))
      \<and> len (yaw_data s) = len (pitch_data s))"
| "in_section L148 s =
     (len (timestamps s) = bump (len (yaw_data s))
      \<and> len (roll_data s) = bump (len (yaw_data s))
      \<and> len (pitch_data s) = bump (len (yaw_data s)))"
| "in_section L149 s = eq_len s"

definition capacities :: "state \<Rightarrow> bool" where
  "capacities s =
     (maxlen (timestamps s) = 1000 \<and> maxlen (roll_data s) = 1000
      \<and> maxlen (pitch_data s) = 1000 \<and> maxlen (yaw_data s) = 1000
      \<and> len (timestamps s) \<le> 1000 \<and> len (roll_data s) \<le> 1000
      \<and> len (pitch_data s) \<le> 1000 \<and> len (yaw_data s) \<le> 1000)"

fun plot_eq_len :: "render \<Rightarrow> bool" where
  "plot_eq_len (Plot ts rs ps ys c yl xl) =
     (length rs = length ts \<and> length ps = length ts \<and> length ys = length ts)"
| "plot_eq_len (Placeholder c) = True"

text \<open>
  The lock is held exactly while the acquisition thread is inside its critical section,
  and the entry it is working on is one of the subscription.
\<close>

fun acq_inv :: "acq_pc \<Rightarrow> state \<Rightarrow> bool" where
  "acq_inv (InLock l f) s = (locked s \<and> subscribed f \<and> in_section l s)"
| "acq_inv (AtCheck f) s = (\<not> locked s \<and> subscribed f \<and> eq_len s)"
| "acq_inv (AtAppend f) s = (\<not> locked s \<and> subscribed f \<and> eq_len s)"
| "acq_inv pc s = (\<not> locked s \<and> eq_len s)"

definition inv :: "state \<Rightarrow> bool" where
  "inv s = (capacities s \<and> acq_inv (acq s) s \<and> list_all plot_eq_len (screen s))"

text \<open>The acquisition thread is in its loop, not yet at, or past, an append.\<close>

fun stopped_before_append :: "acq_pc \<Rightarrow> bool" where
  "stopped_before_append AtNext = True"
| "stopped_before_append (AtCheck f) = True"
| "stopped_before_append Returned = True"
| "stopped_before_append (Raised e) = True"
| "stopped_before_append pc = False"

text \<open>
  Outside the critical section the length of the time series is the number of entries
  counted so far, up to the capacity; from line 146 on the time series is one ahead.
\<close>

fun counted :: "acq_pc \<Rightarrow> state \<Rightarrow> bool" where
  "counted (InLock L145 f) s =
     (0 \<le> data_count s \<and> len (timestamps s) = min (nat (data_count s)) 1000)"
| "counted (InLock l f) s =
     (0 \<le> data_count s \<and> len (timestamps s) = min (Suc (nat (data_count s))) 1000)"
| "counted pc s =
     (0 \<le> data_count s \<and> len (timestamps s) = min (nat (data_count s)) 1000)"

text \<open>The total that a drawing shows in its title.\<close>

fun shown_count :: "render \<Rightarrow> int" where
  "shown_count (Plot ts rs ps ys c yl xl) = c"
| "shown_count (Placeholder c) = c"

text \<open>What the link raises, when it raises, is an instance of \<open>Exception\<close>.\<close>

fun raises_Exception :: "event \<Rightarrow> bool" where
  "raises_Exception (LinkOpened (Some e)) = is_Exception e"
| "raises_Exception (LoggerConnected (Some e)) = is_Exception e"
| "raises_Exception (Next (Inl e)) = is_Exception e"
| "raises_Exception ev = True"

text \<open>An exception has left \<open>data_collection_thread\<close>.\<close>

fun escaped :: "acq_pc \<Rightarrow> bool" where
  "escaped (Raised e) = True"
| "escaped pc = False"

text \<open>
  The totals shown by the drawings so far never go down, and none exceeds the counter.
\<close>

definition shown_sorted :: "state \<Rightarrow> bool" where
  "shown_sorted s =
     (sorted (map shown_count (screen s))
      \<and> list_all (\<lambda>r. shown_count r \<le> data_count s) (screen s))"

section \<open>Concrete runs\<close>

definition frame :: "int \<Rightarrow> real \<Rightarrow> log_entry" where
  "frame t v =
     (t, [''stabilizer.roll'' \<mapsto> v, ''stabilizer.pitch'' \<mapsto> v + 1,
          ''stabilizer.yaw'' \<mapsto> v + 2], ''Stabilizer'')"

text \<open>One whole iteration of the loop for an entry: test, lock, five lines, deadline.\<close>

definition iteration :: "log_entry \<Rightarrow> event list" where
  "iteration f = Next (Inr (Some f)) # replicate 8 Acq"

text \<open>The link comes up and the logger starts with the clock at 0.\<close>

definition started :: "event list" where
  "started = [LinkOpened None, LoggerConnected None]"

text \<open>Three entries half a second apart.\<close>

definition three_frames :: "event list" where
  "three_frames =
     started @ iteration (frame 1000 0) @ iteration (frame 1500 1) @ iteration (frame 2000 2)"

text \<open>The deadline passes while the first entry is awaited.\<close>

definition past_deadline :: "event list" where
  "past_deadline = started @ [Time 61]"

text \<open>Then the entry arrives and is handled up to the test of the deadline.\<close>

definition deadline_test :: "event list" where
  "deadline_test = past_deadline @ Next (Inr (Some (frame 1000 0))) # replicate 7 Acq"

text \<open>The loop ends at that test, and the main thread leaves its loop and joins.\<close>

definition timeout_run :: "event list" where
  "timeout_run = deadline_test @ [Acq, LoopTest, Join]"

text \<open>The iterator ends without an entry, and the main thread leaves its loop and joins.\<close>

definition completed_run :: "event list" where
  "completed_run = started @ [Next (Inr None), LoopTest, Join]"

text \<open>The deadline passes and no further entry arrives, whatever else happens.\<close>

definition silent_run :: "event list" where
  "silent_run = started @ [Time 61, Acq, Tick, LoopTest, Time 1000, Acq, Tick, LoopTest]"

text \<open>The first entry has passed the test of the stop flag.\<close>

definition awaiting_lock :: "event list" where
  "awaiting_lock = started @ [Next (Inr (Some (frame 1000 0))), Acq]"

text \<open>The main thread is interrupted while the first entry awaits that test.\<close>

definition stopped_at_check :: "event list" where
  "stopped_at_check = started @ [Next (Inr (Some (frame 1000 0))), Interrupt]"

text \<open>The acquisition thread has executed line 145 of its critical section.\<close>

definition mid_append :: "event list" where
  "mid_append = started @ [Next (Inr (Some (frame 1000 0))), Acq, Acq, Acq]"

text \<open>One entry is buffered, then the main thread is interrupted.\<close>

definition stopped_run :: "event list" where
  "stopped_run = started @ iteration (frame 1000 0) @ [Interrupt]"

section \<open>The bounded series\<close>

lemma maxlen_append_deque [simp]: "maxlen (append_deque d x) = maxlen d"
  by (simp add: append_deque_def Let_def)

lemma len_append_deque:
  "len d \<le> maxlen d \<Longrightarrow> len (append_deque d x) = min (Suc (len d)) (maxlen d)"
  by (auto simp: append_deque_def len_def Let_def)

lemma items_append_deque:
  "items (append_deque d x) =
     (if maxlen d < Suc (length (items d)) then tl (items d @ [x]) else items d @ [x])"
  by (simp add: append_deque_def Let_def)

lemma maxlen_appends: "maxlen (foldl append_deque d vs) = maxlen d"
  by (induction vs rule: rev_induct) simp_all

text \<open>
  Appending \<open>vs\<close> to a series that respects its capacity leaves the last values of what
  was there followed by \<open>vs\<close>. Induction from the right: one more append either keeps
  everything (room left) or drops the head.
\<close>

lemma appends_items:
  "length (items d) \<le> maxlen d \<Longrightarrow>
   items (foldl append_deque d vs) =
     drop (length (items d) + length vs - maxlen d) (items d @ vs)"
proof (induction vs rule: rev_induct)
  case Nil
  then show ?case by simp
next
  case (snoc x xs)
  let ?d = "foldl append_deque d xs"
  let ?n = "length (items d) + length xs - maxlen d"
  have i: "items ?d = drop ?n (items d @ xs)"
    using snoc by simp
  show ?case
  proof (cases "maxlen d < Suc (length (items ?d))")
    case True
    then have ge: "maxlen d \<le> length (items d) + length xs"
      by (simp add: i)
    have "items (foldl append_deque d (xs @ [x])) = tl (items ?d @ [x])"
      using True by (simp add: items_append_deque maxlen_appends)
    also have "\<dots> = tl (drop ?n (items d @ xs @ [x]))"
      using ge by (simp add: i)
    also have "\<dots> = drop (Suc ?n) (items d @ xs @ [x])"
      by (simp only: drop_Suc drop_tl)
    also have "Suc ?n = length (items d) + length (xs @ [x]) - maxlen d"
      using ge by simp
    finally show ?thesis by simp
  next
    case False
    then have le: "length (items d) + length xs < maxlen d"
      by (simp add: i)
    have "items (foldl append_deque d (xs @ [x])) = items ?d @ [x]"
      using False by (simp add: items_append_deque maxlen_appends)
    then show ?thesis using le by (simp add: i)
  qed
qed

text \<open>
  Claim C2. For every capacity \<open>N\<close> and every sequence \<open>vs\<close> of appended values, a
  series created empty with \<open>deque(maxlen=N)\<close> reads back, oldest first, as the last
  \<open>min (length vs) N\<close> values of \<open>vs\<close>: with more than \<open>N\<close> values its length is
  exactly \<open>N\<close> and the oldest \<open>length vs - N\<close> are gone; with at most \<open>N\<close> values
  it holds all of them.
\<close>

theorem bounded_series_keeps_last:
  "list_of (foldl append_deque (deque N) vs) = drop (length vs - N) vs
   \<and> len (foldl append_deque (deque N) vs) = min (length vs) N
   \<and> (N < length vs \<longrightarrow>
        len (foldl append_deque (deque N) vs) = N
        \<and> list_of (foldl append_deque (deque N) vs) = drop (length vs - N) vs)
   \<and> (length vs \<le> N \<longrightarrow>
        len (foldl append_deque (deque N) vs) = length vs
        \<and> list_of (foldl append_deque (deque N) vs) = vs)"
  using appends_items [of "deque N" vs]
  by (auto simp: deque_def list_of_def len_def)

theorem bounded_series_keeps_last_witness:
  "5 < length [0, 1, 2, 3, 4, 5, 6 :: real]
   \<and> len (foldl append_deque (deque 5) [0, 1, 2, 3, 4, 5, 6 :: real]) = 5
   \<and> list_of (foldl append_deque (deque 5) [0, 1, 2, 3, 4, 5, 6 :: real]) = [2, 3, 4, 5, 6]
   \<and> length [7, 8, 9 :: real] \<le> 5
   \<and> len (foldl append_deque (deque 5) [7, 8, 9 :: real]) = 3
   \<and> list_of (foldl append_deque (deque 5) [7, 8, 9 :: real]) = [7, 8, 9]"
  using bounded_series_keeps_last [of 5 "[0, 1, 2, 3, 4, 5, 6 :: real]"]
    bounded_series_keeps_last [of 5 "[7, 8, 9 :: real]"]
  by simp

section \<open>Steps and runs\<close>

lemma run_Nil [simp]: "run s [] = s"
  by (simp add: run_def)

lemma run_Cons [simp]: "run s (e # es) = run (step s e) es"
  by (simp add: run_def)

lemma subscribedD:
  "subscribed (t, d, n) \<Longrightarrow>
     (\<exists>r. d ''stabilizer.roll'' = Some r) \<and> (\<exists>p. d ''stabilizer.pitch'' = Some p)
     \<and> (\<exists>y. d ''stabilizer.yaw'' = Some y)"
  by (simp add: subscribed_def lg_stab_def)

text \<open>A line of the critical section touches the buffers and the counter only.\<close>

lemma critical_frame:
  "critical l f s = Inr s' \<Longrightarrow>
     running s' = running s \<and> acq s' = acq s \<and> locked s' = locked s
     \<and> main_pc s' = main_pc s \<and> clock s' = clock s \<and> endTime s' = endTime s
     \<and> out s' = out s \<and> screen s' = screen s
     \<and> data_count s' = (if l = L149 then data_count s + 1 else data_count s)"
  by (cases l; cases f) (auto simp: try_bind_def split: sum.splits)

lemma except_frame [simp]:
  "running (except_Exception e s) = running s"
  "data_count (except_Exception e s) = data_count s"
  "buffers (except_Exception e s) = buffers s"
  "screen (except_Exception e s) = screen s"
  "main_pc (except_Exception e s) = main_pc s"
  "locked (except_Exception e s) = locked s"
  by (simp_all add: except_Exception_def buffers_def)

subsection \<open>The stop flag\<close>

lemma running_acq_step: "running (acq_step pc s) = running s"
  by (cases pc) (auto simp: Let_def split: sum.splits option.splits dest: critical_frame)

lemma running_step:
  "running (step s e) = (if e = Interrupt \<and> main_pc s = MainLoop then False else running s)"
  by (cases e)
     (auto simp: running_acq_step split: acq_pc.splits option.splits sum.splits main_pc.splits)

lemma running_run: "running (run s es) \<Longrightarrow> running s"
proof (induction es arbitrary: s)
  case Nil
  then show ?case by simp
next
  case (Cons e es)
  then have "running (step s e)" by simp
  then show ?case by (simp add: running_step split: if_splits)
qed

subsection \<open>The counter\<close>

lemma data_count_acq_step:
  "data_count (acq_step pc s) =
     (if (\<exists>f. pc = InLock L149 f) then data_count s + 1 else data_count s)"
proof (cases pc)
  case (InLock l f)
  obtain t d n where f: "f = (t, d, n)" by (cases f)
  show ?thesis
    by (cases l)
       (auto simp: InLock f try_bind_def except_Exception_def split: sum.splits)
qed (simp_all add: Let_def)

lemma data_count_step:
  "data_count (step s e) =
     (if e = Acq \<and> (\<exists>f. acq s = InLock L149 f) then data_count s + 1 else data_count s)"
  by (cases e)
     (auto simp: data_count_acq_step split: acq_pc.splits option.splits sum.splits main_pc.splits)

lemma data_count_run: "data_count s \<le> data_count (run s es)"
proof (induction es arbitrary: s)
  case Nil
  show ?case by simp
next
  case (Cons e es)
  have "data_count s \<le> data_count (step s e)"
    by (simp add: data_count_step)
  also have "\<dots> \<le> data_count (run (step s e) es)"
    by (rule Cons.IH)
  finally show ?case by simp
qed

subsection \<open>The buffers\<close>

lemma buffers_acq_step:
  "\<forall>l f. pc \<noteq> InLock l f \<Longrightarrow> buffers (acq_step pc s) = buffers s"
  by (cases pc) (auto simp: Let_def buffers_def)

lemma buffers_step:
  "e \<noteq> Acq \<or> (\<forall>l f. acq s \<noteq> InLock l f) \<Longrightarrow> buffers (step s e) = buffers s"
  by (cases e)
     (auto simp: buffers_acq_step split: acq_pc.splits option.splits sum.splits main_pc.splits,
      auto simp: buffers_def)

text \<open>The whole critical section, from the wait for the lock to its release.\<close>

lemma critical_section_run:
  assumes "acq s = AtAppend f" "\<not> locked s" "subscribed f"
  shows "acq (run s (replicate 6 Acq)) = AtDeadline f
         \<and> \<not> locked (run s (replicate 6 Acq))
         \<and> data_count (run s (replicate 6 Acq)) = data_count s + 1
         \<and> timestamps (run s (replicate 6 Acq)) = append_deque (timestamps s) (fst f)"
proof -
  obtain t d n where f: "f = (t, d, n)" by (cases f)
  from assms(3) f obtain r p y where
    v: "d ''stabilizer.roll'' = Some r" "d ''stabilizer.pitch'' = Some p"
       "d ''stabilizer.yaw'' = Some y"
    using subscribedD by blast
  show ?thesis
    using assms(1,2)
    by (simp add: numeral_eq_Suc f v try_bind_def getitem_dict_def)
qed

section \<open>\<open>animate\<close> returns\<close>

lemma y_limits_returns: "\<exists>r. y_limits xs = Inr r"
  by (cases xs) (simp_all add: y_limits_def try_bind_def Let_def)

lemma x_limits_returns: "\<exists>r. x_limits xs = Inr r"
  by (cases xs) (simp_all add: x_limits_def try_bind_def)

lemma animate_returns: "\<exists>r. animate s = Inr r"
proof (cases "len (timestamps s) > 2")
  case True
  then obtain t ts where ts: "items (timestamps s) = t # ts"
    by (cases "items (timestamps s)") (auto simp: len_def)
  obtain yl where
    yl: "y_limits (list_of (roll_data s) @ list_of (pitch_data s) @ list_of (yaw_data s)) = Inr yl"
    using y_limits_returns by blast
  obtain xl where
    xl: "x_limits (map (\<lambda>u. real_of_int (u - t) / 1000) (list_of (timestamps s))) = Inr xl"
    using x_limits_returns by blast
  show ?thesis
    using True by (simp add: animate_def ts try_bind_def Let_def yl xl del: of_int_diff)
next
  case False
  then show ?thesis by (simp add: animate_def)
qed

lemma animate_plot_eq_len:
  "eq_len s \<Longrightarrow> animate s = Inr r \<Longrightarrow> plot_eq_len r"
  by (auto simp: animate_def try_bind_def Let_def eq_len_def len_def list_of_def
           split: if_splits sum.splits)

lemma animate_shown_count: "animate s = Inr r \<Longrightarrow> shown_count r = data_count s"
  by (auto simp: animate_def try_bind_def Let_def split: if_splits sum.splits)

section \<open>\<open>animate\<close> with the checks of the plotting calls\<close>

subsection \<open>Magnitudes that do not overflow\<close>

lemma double_limit_big: "2 ^ 132 \<le> double_limit"
proof -
  have "(2::real) ^ 132 + 2 ^ 970 \<le> 2 ^ 971"
    using power_increasing [of 132 970 "2::real"] by simp
  also have "\<dots> \<le> 2 ^ 1024"
    by (rule power_increasing) simp_all
  finally show ?thesis by (simp add: double_limit_def)
qed

lemma float32_bound: "8 * (2::real) ^ 128 < double_limit" "(1::real) \<le> 2 ^ 128"
proof -
  have "8 * (2::real) ^ 128 = 2 ^ 131" by simp
  also have "\<dots> < 2 ^ 132" by simp
  finally show "8 * (2::real) ^ 128 < double_limit"
    using double_limit_big by linarith
  show "(1::real) \<le> 2 ^ 128" by simp
qed

lemma to_double_Finite: "\<bar>x\<bar> < double_limit \<Longrightarrow> to_double x = Finite x"
  by (auto simp: to_double_def)

lemma fold_min_float32:
  "list_all float32 xs \<Longrightarrow> float32 m \<Longrightarrow>
     float32 (fold (\<lambda>y m. if d_lt y m then y else m) xs m)"
  by (induction xs arbitrary: m) simp_all

lemma fold_max_float32:
  "list_all float32 xs \<Longrightarrow> float32 m \<Longrightarrow>
     float32 (fold (\<lambda>y m. if d_lt m y then y else m) xs m)"
  by (induction xs arbitrary: m) simp_all

lemma float32_map_Finite:
  "list_all float32 (map Finite xs) = list_all (\<lambda>v. \<bar>v\<bar> \<le> 2 ^ 128) xs"
  by (induction xs) simp_all

lemma float32D: "float32 d \<Longrightarrow> \<exists>x. d = Finite x \<and> \<bar>x\<bar> \<le> 2 ^ 128"
  by (cases d) simp_all

text \<open>The limits computed from a minimum and a maximum of bounded magnitude are finite.\<close>

lemma set_lim_bounded:
  assumes "\<bar>a\<bar> \<le> B" "\<bar>b\<bar> \<le> B" "1 \<le> B" "8 * B < double_limit"
  shows "set_lim
           (d_sub (Finite a)
              (if d_ne (Finite b) (Finite a) then d_mul (d_sub (Finite b) (Finite a)) (Finite 0.2)
               else Finite 2))
           (d_add (Finite b)
              (if d_ne (Finite b) (Finite a) then d_mul (d_sub (Finite b) (Finite a)) (Finite 0.2)
               else Finite 2)) = Inr ()"
proof -
  define m where "m = (b + - a) * 0.2"
  have d: "to_double (b + - a) = Finite (b + - a)"
    using assms by (intro to_double_Finite) linarith
  have "\<bar>b + - a\<bar> \<le> 5 * B"
    using assms by linarith
  then have mB: "\<bar>m\<bar> \<le> B"
    by (simp add: m_def abs_mult)
  have m: "to_double m = Finite m"
    using assms mB by (intro to_double_Finite) linarith
  have lo: "to_double (a + - m) = Finite (a + - m)"
    using assms mB by (intro to_double_Finite) linarith
  have hi: "to_double (b + m) = Finite (b + m)"
    using assms mB by (intro to_double_Finite) linarith
  have lo2: "to_double (a + - 2) = Finite (a + - 2)"
    using assms by (intro to_double_Finite) linarith
  have hi2: "to_double (b + 2) = Finite (b + 2)"
    using assms by (intro to_double_Finite) linarith
  have sub: "d_sub (Finite b) (Finite a) = Finite (b + - a)"
    by (simp only: d_sub_def d_neg.simps d_add.simps d)
  have mul: "d_mul (d_sub (Finite b) (Finite a)) (Finite 0.2) = Finite m"
    by (simp only: sub d_mul.simps m_def [symmetric] m)
  have lo': "d_sub (Finite a) (Finite m) = Finite (a + - m)"
    by (simp only: d_sub_def d_neg.simps d_add.simps lo)
  have hi': "d_add (Finite b) (Finite m) = Finite (b + m)"
    by (simp only: d_add.simps hi)
  have lo2': "d_sub (Finite a) (Finite 2) = Finite (a + - 2)"
    by (simp only: d_sub_def d_neg.simps d_add.simps lo2)
  have hi2': "d_add (Finite b) (Finite 2) = Finite (b + 2)"
    by (simp only: d_add.simps hi2)
  show ?thesis
  proof (cases "d_ne (Finite b) (Finite a)")
    case True
    then show ?thesis
      by (simp only: if_True mul lo' hi' set_lim_def is_finite.simps simp_thms)
  next
    case False
    then show ?thesis
      by (simp only: if_False lo2' hi2' set_lim_def is_finite.simps simp_thms if_True)
  qed
qed

lemma set_y_limits_float32:
  assumes "list_all float32 all_data"
  shows "set_y_limits all_data = Inr ()"
proof (cases all_data)
  case Nil
  then show ?thesis by (simp add: set_y_limits_def)
next
  case (Cons x xs)
  with assms have x: "float32 x" "list_all float32 xs" by simp_all
  from fold_min_float32 [OF x(2,1)] obtain a where
    a: "fold (\<lambda>y m. if d_lt y m then y else m) xs x = Finite a" "\<bar>a\<bar> \<le> 2 ^ 128"
    using float32D by blast
  from fold_max_float32 [OF x(2,1)] obtain b where
    b: "fold (\<lambda>y m. if d_lt m y then y else m) xs x = Finite b" "\<bar>b\<bar> \<le> 2 ^ 128"
    using float32D by blast
  note l = set_lim_bounded [OF a(2) b(2) float32_bound(2) float32_bound(1)]
  show ?thesis
    unfolding set_y_limits_def Cons
    by (simp only: list.distinct not_False_eq_True if_True double_min.simps double_max.simps
          a(1) b(1) try_bind_def sum.case Let_def l old.unit.case)
qed

subsection \<open>The times, the limits, the plots\<close>

lemma double_limit_ge: "1000 < double_limit"
proof -
  have "(1000::real) < 2 ^ 132" by simp
  with double_limit_big show ?thesis by linarith
qed

lemma int_div_1000_fits:
  "fits_double n \<Longrightarrow> int_div_1000 n = Inr (Finite (real_of_int n / 1000))"
proof -
  assume f: "fits_double n"
  then have "\<bar>real_of_int n / 1000\<bar> < double_limit"
    by (simp add: fits_double_def)
  then show ?thesis
    using f by (simp add: int_div_1000_def to_double_Finite)
qed

lemma times_since_fits:
  "list_all (\<lambda>t. fits_double (t - s)) ts \<Longrightarrow>
     \<exists>xs. times_since s ts = Inr xs \<and> length xs = length ts \<and> list_all is_time xs"
proof (induction ts)
  case Nil
  show ?case by simp
next
  case (Cons t ts)
  then obtain xs where xs: "times_since s ts = Inr xs" "length xs = length ts"
    "list_all is_time xs"
    by auto
  from Cons.prems have f: "fits_double (t - s)" by simp
  then have "is_time (Finite (real_of_int (t - s) / 1000))"
    by (simp add: fits_double_def)
  with xs f show ?case
    by (simp add: int_div_1000_fits try_bind_def del: of_int_diff)
qed

lemma times_since_raises:
  "times_since s ts = Inl e \<Longrightarrow>
     e = OverflowError \<and> \<not> list_all (\<lambda>t. fits_double (t - s)) ts"
  by (induction ts arbitrary: e)
     (auto simp: try_bind_def int_div_1000_def split: sum.splits if_splits)

lemma times_since_returns:
  "times_since s ts = Inr xs \<Longrightarrow> list_all (\<lambda>t. fits_double (t - s)) ts"
  by (induction ts arbitrary: xs)
     (auto simp: try_bind_def int_div_1000_def split: sum.splits if_splits)

lemma set_x_limits_times:
  assumes "list_all is_time xs"
  shows "set_x_limits xs = Inr ()"
proof (cases xs)
  case Nil
  then show ?thesis by (simp add: set_x_limits_def)
next
  case (Cons y ys)
  then have "last (y # ys) \<in> set xs" by (metis last_in_set list.distinct(1))
  with assms have "is_time (last (y # ys))"
    by (simp add: list_all_iff)
  then obtain r where r: "last (y # ys) = Finite r" "\<bar>r\<bar> * 1000 < double_limit"
    by (cases "last (y # ys)") simp_all
  have "\<bar>r + 0.5\<bar> < double_limit"
    using r(2) double_limit_ge by (simp add: abs_if split: if_splits)
  then have "d_add (Finite r) (Finite 0.5) = Finite (r + 0.5)"
    by (simp add: to_double_Finite)
  then show ?thesis
    unfolding set_x_limits_def Cons
    by (simp only: getitem_last.simps r(1) try_bind_def sum.case Let_def set_lim_def
          is_finite.simps simp_thms if_True list.size)
       simp
qed

lemma set_lim_raises: "set_lim lo hi = Inl e \<Longrightarrow> e = ValueError"
  by (simp add: set_lim_def split: if_splits)

lemma set_y_limits_raises: "set_y_limits xs = Inl e \<Longrightarrow> e = ValueError"
  by (cases xs)
     (auto simp: set_y_limits_def try_bind_def Let_def split: sum.splits if_splits
           dest: set_lim_raises)

lemma set_x_limits_raises: "set_x_limits xs = Inl e \<Longrightarrow> e = ValueError"
  by (cases xs)
     (auto simp: set_x_limits_def try_bind_def Let_def split: sum.splits if_splits
           dest: set_lim_raises)

lemma ax_plot_raises: "ax_plot xs ys = Inl e \<Longrightarrow> e = ValueError \<and> length xs \<noteq> length ys"
  by (simp add: ax_plot_def split: if_splits)

lemma animate_backend_raises:
  assumes "animate_backend ts rs ps ys = Inl e"
  shows "2 < length ts
         \<and> (e = OverflowError \<and> \<not> times_fit ts \<or> e = ValueError \<and> times_fit ts)"
proof -
  from assms have big: "2 < length ts"
    by (simp add: animate_backend_def split: if_splits)
  then obtain t ts' where ts: "ts = t # ts'" by (cases ts) auto
  show ?thesis
  proof (cases "times_since t ts")
    case (Inl e')
    with assms big have "e' = e"
      by (simp add: animate_backend_def ts try_bind_def)
    with Inl times_since_raises [of t ts e] show ?thesis
      using big by (simp add: times_fit_def ts)
  next
    case (Inr xs)
    with assms big have "e = ValueError"
      by (auto simp: animate_backend_def ts try_bind_def split: sum.splits
               dest: ax_plot_raises set_y_limits_raises set_x_limits_raises)
    moreover have "times_fit ts"
      using times_since_returns [OF Inr] by (simp add: times_fit_def ts)
    ultimately show ?thesis using big by simp
  qed
qed

lemma animate_backend_plots:
  assumes "2 < length ts" "times_fit ts"
    "length rs = length ts" "length ps = length ts" "length ys = length ts"
    "list_all float32 (rs @ ps @ ys)"
  shows "animate_backend ts rs ps ys = Inr Plotted"
proof -
  from assms(1) obtain t ts' where ts: "ts = t # ts'" by (cases ts) auto
  from assms(2) have "list_all (\<lambda>u. fits_double (u - t)) ts"
    by (simp add: times_fit_def ts)
  from times_since_fits [OF this] obtain xs where
    xs: "times_since t ts = Inr xs" "length xs = length ts" "list_all is_time xs"
    by blast
  have p: "ax_plot xs rs = Inr ()" "ax_plot xs ps = Inr ()" "ax_plot xs ys = Inr ()"
    using assms(3,4,5) xs(2) by (simp_all add: ax_plot_def)
  have y: "set_y_limits (rs @ ps @ ys) = Inr ()"
    using assms(6) by (rule set_y_limits_float32)
  have x: "set_x_limits xs = Inr ()"
    using xs(3) by (rule set_x_limits_times)
  have g: "getitem_first ts = Inr t"
    by (simp add: ts)
  show ?thesis
    unfolding animate_backend_def
    by (simp only: assms(1) if_True g try_bind_def sum.case xs(1) p y x)
qed

section \<open>Invariants of the runs\<close>

subsection \<open>Equal lengths outside the critical section\<close>

lemma capacities_upd [simp]:
  "capacities (s\<lparr>acq := a\<rparr>) = capacities s"
  "capacities (s\<lparr>out := b\<rparr>) = capacities s"
  "capacities (s\<lparr>locked := c\<rparr>) = capacities s"
  "capacities (s\<lparr>screen := d\<rparr>) = capacities s"
  "capacities (s\<lparr>main_pc := e\<rparr>) = capacities s"
  "capacities (s\<lparr>running := g\<rparr>) = capacities s"
  "capacities (s\<lparr>clock := h\<rparr>) = capacities s"
  "capacities (s\<lparr>endTime := i\<rparr>) = capacities s"
  by (simp_all add: capacities_def)

lemma eq_len_upd [simp]:
  "eq_len (s\<lparr>acq := a\<rparr>) = eq_len s"
  "eq_len (s\<lparr>out := b\<rparr>) = eq_len s"
  "eq_len (s\<lparr>locked := c\<rparr>) = eq_len s"
  "eq_len (s\<lparr>screen := d\<rparr>) = eq_len s"
  "eq_len (s\<lparr>main_pc := e\<rparr>) = eq_len s"
  "eq_len (s\<lparr>running := g\<rparr>) = eq_len s"
  "eq_len (s\<lparr>clock := h\<rparr>) = eq_len s"
  "eq_len (s\<lparr>endTime := i\<rparr>) = eq_len s"
  by (simp_all add: eq_len_def)

lemma in_section_upd [simp]:
  "in_section l (s\<lparr>acq := a\<rparr>) = in_section l s"
  "in_section l (s\<lparr>out := b\<rparr>) = in_section l s"
  "in_section l (s\<lparr>locked := c\<rparr>) = in_section l s"
  "in_section l (s\<lparr>screen := d\<rparr>) = in_section l s"
  "in_section l (s\<lparr>main_pc := e\<rparr>) = in_section l s"
  "in_section l (s\<lparr>running := g\<rparr>) = in_section l s"
  "in_section l (s\<lparr>clock := h\<rparr>) = in_section l s"
  "in_section l (s\<lparr>endTime := i\<rparr>) = in_section l s"
  by (cases l; simp add: eq_len_def)+

lemma acq_inv_upd [simp]:
  "acq_inv pc (s\<lparr>acq := a\<rparr>) = acq_inv pc s"
  "acq_inv pc (s\<lparr>out := b\<rparr>) = acq_inv pc s"
  "acq_inv pc (s\<lparr>screen := d\<rparr>) = acq_inv pc s"
  "acq_inv pc (s\<lparr>main_pc := e\<rparr>) = acq_inv pc s"
  "acq_inv pc (s\<lparr>running := g\<rparr>) = acq_inv pc s"
  "acq_inv pc (s\<lparr>clock := h\<rparr>) = acq_inv pc s"
  "acq_inv pc (s\<lparr>endTime := i\<rparr>) = acq_inv pc s"
  by (cases pc; simp)+

text \<open>
  A line of the critical section, run on an entry of the subscription, returns and moves
  the lengths from the shape before the line to the shape before the next one.
\<close>

lemma critical_inv:
  assumes "capacities s" "in_section l s" "subscribed f"
  shows "\<exists>s'. critical l f s = Inr s' \<and> capacities s' \<and> locked s' = locked s
           \<and> screen s' = screen s \<and> acq s' = acq s
           \<and> (case next_line l of Some l' \<Rightarrow> in_section l' s' | None \<Rightarrow> eq_len s')"
proof -
  obtain t d n where f: "f = (t, d, n)" by (cases f)
  from assms(3) f obtain r p y where
    v: "d ''stabilizer.roll'' = Some r" "d ''stabilizer.pitch'' = Some p"
       "d ''stabilizer.yaw'' = Some y"
    using subscribedD by blast
  show ?thesis
    using assms(1,2)
    by (cases l)
       (auto simp: f v try_bind_def getitem_dict_def capacities_def eq_len_def bump_def
                   len_append_deque)
qed

lemma inv_unlockedD: "inv s \<Longrightarrow> \<not> locked s \<Longrightarrow> eq_len s"
  by (cases "acq s") (auto simp: inv_def)

lemma inv_acq_step:
  assumes "inv s"
  shows "inv (acq_step (acq s) s)"
proof (cases "acq s")
  case (InLock l f)
  with assms have a: "capacities s" "in_section l s" "subscribed f" "locked s"
    "list_all plot_eq_len (screen s)"
    by (simp_all add: inv_def)
  from critical_inv [OF a(1,2,3)] obtain s' where
    s': "critical l f s = Inr s'" "capacities s'" "locked s' = locked s"
        "screen s' = screen s"
        "case next_line l of Some l' \<Rightarrow> in_section l' s' | None \<Rightarrow> eq_len s'"
    by blast
  show ?thesis
    using s' a by (cases "next_line l") (simp_all add: InLock inv_def)
qed (use assms in \<open>auto simp: inv_def Let_def\<close>)

lemma inv_step:
  assumes "inv s" "event_ok e"
  shows "inv (step s e)"
proof (cases e)
  case (LinkOpened r)
  with assms show ?thesis
    by (cases "acq s"; cases r) (auto simp: inv_def except_Exception_def)
next
  case (LoggerConnected r)
  with assms show ?thesis
    by (cases "acq s"; cases r) (auto simp: inv_def except_Exception_def)
next
  case (Next r)
  with assms show ?thesis
    by (cases "acq s")
       (auto simp: inv_def except_Exception_def split: sum.splits option.splits)
next
  case Acq
  with assms show ?thesis by (simp add: inv_acq_step)
next
  case (Time t)
  with assms show ?thesis by (simp add: inv_def)
next
  case Tick
  show ?thesis
  proof (cases "main_pc s = MainLoop \<and> \<not> locked s")
    case True
    then have "eq_len s" using assms(1) inv_unlockedD by blast
    then show ?thesis
      using assms(1) True Tick
      by (auto simp: inv_def split: sum.splits dest: animate_plot_eq_len)
  next
    case False
    then show ?thesis using assms(1) Tick by (auto split: main_pc.splits)
  qed
next
  case LoopTest
  with assms show ?thesis by (auto simp: inv_def split: main_pc.splits)
next
  case Interrupt
  with assms show ?thesis by (auto simp: inv_def split: main_pc.splits)
next
  case Join
  with assms show ?thesis by (auto simp: inv_def split: main_pc.splits)
qed

lemma inv_init: "inv init_state"
  by (simp add: inv_def init_state_def capacities_def eq_len_def deque_def len_def)

lemma inv_run: "inv s \<Longrightarrow> list_all event_ok es \<Longrightarrow> inv (run s es)"
  by (induction es arbitrary: s) (simp_all add: inv_step)

subsection \<open>The length of the time series and the counter\<close>

lemma counted_eq:
  "counted pc s =
     (0 \<le> data_count s
      \<and> len (timestamps s) =
          (if (\<exists>l f. pc = InLock l f \<and> l \<noteq> L145)
           then min (Suc (nat (data_count s))) 1000 else min (nat (data_count s)) 1000))"
proof (cases pc)
  case (InLock l f)
  then show ?thesis by (cases l; cases f; auto)
qed simp_all

lemma critical_counted:
  assumes "capacities s" "subscribed f" "counted (InLock l f) s"
  shows "\<exists>s'. critical l f s = Inr s'
           \<and> (case next_line l of Some l' \<Rightarrow> counted (InLock l' f) s'
               | None \<Rightarrow> counted AtNext s')"
proof -
  obtain t d n where f: "f = (t, d, n)" by (cases f)
  from assms(2) f obtain r p y where
    v: "d ''stabilizer.roll'' = Some r" "d ''stabilizer.pitch'' = Some p"
       "d ''stabilizer.yaw'' = Some y"
    using subscribedD by blast
  show ?thesis
    using assms(1,3)
    by (cases l)
       (auto simp: f v try_bind_def getitem_dict_def capacities_def len_append_deque
                   nat_add_distrib)
qed

lemma counted_acq_step:
  assumes "inv s" "counted (acq s) s"
  shows "counted (acq (acq_step (acq s) s)) (acq_step (acq s) s)"
proof (cases "acq s")
  case (InLock l f)
  with assms have a: "capacities s" "subscribed f" "counted (InLock l f) s"
    by (simp_all add: inv_def)
  from critical_counted [OF a] obtain s' where
    s': "critical l f s = Inr s'"
        "case next_line l of Some l' \<Rightarrow> counted (InLock l' f) s' | None \<Rightarrow> counted AtNext s'"
    by blast
  show ?thesis
    using s' by (cases "next_line l") (simp_all add: InLock counted_eq)
qed (use assms in \<open>auto simp: counted_eq Let_def\<close>)

lemma counted_step:
  assumes "inv s" "counted (acq s) s"
  shows "counted (acq (step s e)) (step s e)"
proof (cases e)
  case Acq
  with assms show ?thesis by (simp add: counted_acq_step)
qed (use assms in \<open>auto simp: counted_eq except_Exception_def
       split: acq_pc.splits option.splits sum.splits main_pc.splits\<close>)

lemma count_inv_run:
  "inv s \<Longrightarrow> counted (acq s) s \<Longrightarrow> list_all event_ok es \<Longrightarrow>
     inv (run s es) \<and> counted (acq (run s es)) (run s es)"
  by (induction es arbitrary: s) (simp_all add: inv_step counted_step)

lemma unlocked_count:
  assumes "list_all event_ok es" "\<not> locked (run init_state es)"
  shows "len (timestamps (run init_state es)) = min (nat (data_count (run init_state es))) 1000"
proof -
  have "counted (acq init_state) init_state"
    by (simp add: init_state_def deque_def len_def)
  with inv_init assms(1)
  have i: "inv (run init_state es)" "counted (acq (run init_state es)) (run init_state es)"
    using count_inv_run by blast+
  from i(1) assms(2) have "\<forall>l f. acq (run init_state es) \<noteq> InLock l f"
    by (auto simp: inv_def)
  with i(2) show ?thesis by (simp add: counted_eq)
qed

subsection \<open>The totals shown\<close>

lemma screen_acq_step: "screen (acq_step pc s) = screen s"
  by (cases pc) (auto simp: Let_def split: sum.splits option.splits dest: critical_frame)

lemma shown_sorted_step:
  assumes "shown_sorted s"
  shows "shown_sorted (step s e)"
proof (cases "e = Tick")
  case True
  show ?thesis
    using assms True
    by (auto simp: shown_sorted_def sorted_append animate_shown_count list_all_iff
             split: main_pc.splits sum.splits)
next
  case False
  then have sc: "screen (step s e) = screen s"
    by (cases e)
       (auto simp: screen_acq_step split: acq_pc.splits option.splits sum.splits main_pc.splits)
  have "data_count s \<le> data_count (step s e)"
    by (simp add: data_count_step)
  with assms sc show ?thesis
    by (fastforce simp: shown_sorted_def list_all_iff)
qed

lemma shown_sorted_run: "shown_sorted s \<Longrightarrow> shown_sorted (run s es)"
  by (induction es arbitrary: s) (simp_all add: shown_sorted_step)

subsection \<open>After the stop flag has been seen\<close>

lemma stopped_step:
  assumes "\<not> running s" "stopped_before_append (acq s)"
  shows "\<not> running (step s e) \<and> stopped_before_append (acq (step s e))
         \<and> buffers (step s e) = buffers s \<and> data_count (step s e) = data_count s"
proof -
  have r: "\<not> running (step s e)"
    using assms(1) by (simp add: running_step)
  have nl: "\<forall>l f. acq s \<noteq> InLock l f"
    using assms(2) by auto
  have b: "buffers (step s e) = buffers s"
    using nl by (simp add: buffers_step)
  have d: "data_count (step s e) = data_count s"
    using nl by (simp add: data_count_step)
  have p: "stopped_before_append (acq (step s e))"
    using assms
    by (cases e; cases "acq s")
       (auto simp: except_Exception_def split: option.splits sum.splits main_pc.splits)
  from r b d p show ?thesis by simp
qed

lemma stopped_stays:
  "\<not> running s \<Longrightarrow> stopped_before_append (acq s) \<Longrightarrow>
     buffers (run s es) = buffers s \<and> data_count (run s es) = data_count s"
proof (induction es arbitrary: s)
  case Nil
  show ?case by simp
next
  case (Cons e es)
  from stopped_step [OF Cons.prems, of e] Cons.IH [of "step s e"]
  show ?case by simp
qed

lemma reach_append:
  assumes "acq (step s e) = AtAppend f" "acq s \<noteq> AtAppend f"
  shows "e = Acq \<and> acq s = AtCheck f \<and> running s"
  using assms
  by (cases e; cases "acq s")
     (auto simp: except_Exception_def Let_def
           split: option.splits sum.splits main_pc.splits if_splits dest: critical_frame)

subsection \<open>Exceptions of the link do not leave the thread\<close>

lemma not_escaped_acq_step:
  "\<not> escaped (acq s) \<Longrightarrow> \<not> escaped (acq (acq_step (acq s) s))"
proof (cases "acq s")
  case (InLock l f)
  obtain t d n where f: "f = (t, d, n)" by (cases f)
  show ?thesis
    by (cases l; cases "next_line l")
       (auto simp: InLock f try_bind_def getitem_dict_def except_Exception_def
             split: sum.splits option.splits)
qed (auto simp: Let_def)

lemma not_escaped_step:
  "\<not> escaped (acq s) \<Longrightarrow> raises_Exception e \<Longrightarrow> \<not> escaped (acq (step s e))"
  by (cases e)
     (auto simp: except_Exception_def not_escaped_acq_step
           split: acq_pc.splits option.splits sum.splits main_pc.splits)

lemma not_escaped_run:
  "\<not> escaped (acq s) \<Longrightarrow> list_all raises_Exception es \<Longrightarrow> \<not> escaped (acq (run s es))"
  by (induction es arbitrary: s) (simp_all add: not_escaped_step)

section \<open>Evaluating concrete runs\<close>

lemmas eval_defs = run_def started_def iteration_def frame_def init_state_def deque_def
  append_deque_def len_def list_of_def try_bind_def getitem_dict_def except_Exception_def
  is_alive_def animate_def y_limits_def x_limits_def Let_def eq_len_def subscribed_def
  lg_stab_def buffers_def three_frames_def mid_append_def past_deadline_def deadline_test_def
  timeout_run_def completed_run_def silent_run_def stopped_run_def awaiting_lock_def
  stopped_at_check_def

section \<open>The claims about \<open>scripts/test_basiclog.py\<close>\<close>

text \<open>
  Claim C3. In every run whose entries are those of the subscription, whenever the lock
  is free the four series (time, roll, pitch, yaw) have the same length; while the
  acquisition thread holds the lock, in the middle of appending an entry, a call of
  \<open>animate\<close> does not proceed; and every plot drawn so far was given four series of
  the same length.
\<close>

theorem channels_equal_length:
  assumes "list_all event_ok es"
  shows "(\<not> locked (run init_state es) \<longrightarrow> eq_len (run init_state es))
         \<and> (locked (run init_state es) \<longrightarrow> step (run init_state es) Tick = run init_state es)
         \<and> list_all plot_eq_len (screen (run init_state es))"
proof -
  have i: "inv (run init_state es)"
    using inv_init assms by (rule inv_run)
  show ?thesis
    using i inv_unlockedD [OF i] by (auto simp: inv_def split: main_pc.splits)
qed

text \<open>
  After three entries and a tick the lengths agree; after line 145 of the first entry
  they do not, the lock is held, and a tick changes nothing.
\<close>

theorem channels_equal_length_witness:
  "list_all event_ok (three_frames @ [Tick])
   \<and> \<not> locked (run init_state (three_frames @ [Tick]))
   \<and> eq_len (run init_state (three_frames @ [Tick]))
   \<and> list_all plot_eq_len (screen (run init_state (three_frames @ [Tick])))
   \<and> list_all event_ok mid_append
   \<and> locked (run init_state mid_append)
   \<and> \<not> eq_len (run init_state mid_append)
   \<and> step (run init_state mid_append) Tick = run init_state mid_append"
proof -
  have a: "list_all event_ok (three_frames @ [Tick])"
    by (simp add: eval_defs numeral_eq_Suc)
  have b: "list_all event_ok mid_append"
    by (simp add: eval_defs)
  have c: "\<not> locked (run init_state (three_frames @ [Tick]))"
    by (simp add: eval_defs numeral_eq_Suc)
  have d: "locked (run init_state mid_append)" "\<not> eq_len (run init_state mid_append)"
    by (simp_all add: eval_defs)
  show ?thesis
    using channels_equal_length [OF a] channels_equal_length [OF b] a b c d by simp
qed

text \<open>
  Claim C6. A call of \<open>animate\<close> on at most two samples draws the placeholder and no
  plot; on more than two samples it draws the plot and no placeholder. The number of
  samples is the length of the time series, which in a run, while the lock is free, is
  the total count capped at the capacity.
\<close>

theorem placeholder_below_three:
  "(len (timestamps s) \<le> 2 \<longrightarrow> animate s = Inr (Placeholder (data_count s)))
   \<and> (2 < len (timestamps s) \<longrightarrow> (\<exists>r. animate s = Inr r \<and> is_Plot r))
   \<and> (list_all event_ok es \<and> \<not> locked (run init_state es) \<longrightarrow>
        len (timestamps (run init_state es)) = min (nat (data_count (run init_state es))) 1000)"
proof (intro conjI impI)
  assume "len (timestamps s) \<le> 2"
  then show "animate s = Inr (Placeholder (data_count s))"
    by (simp add: animate_def)
next
  assume big: "2 < len (timestamps s)"
  obtain r where r: "animate s = Inr r"
    using animate_returns by blast
  have "is_Plot r"
    using big r by (auto simp: animate_def try_bind_def Let_def split: sum.splits)
  with r show "\<exists>r. animate s = Inr r \<and> is_Plot r" by blast
next
  assume "list_all event_ok es \<and> \<not> locked (run init_state es)"
  then show "len (timestamps (run init_state es)) = min (nat (data_count (run init_state es))) 1000"
    by (simp add: unlocked_count)
qed

theorem placeholder_below_three_witness:
  "len (timestamps init_state) \<le> 2
   \<and> animate init_state = Inr (Placeholder 0)
   \<and> 2 < len (timestamps (run init_state three_frames))
   \<and> is_Plot (projr (animate (run init_state three_frames)))
   \<and> list_all event_ok three_frames \<and> \<not> locked (run init_state three_frames)
   \<and> data_count (run init_state three_frames) = 3"
proof -
  have a: "len (timestamps init_state) \<le> 2"
    by (simp add: eval_defs)
  have b: "2 < len (timestamps (run init_state three_frames))"
    by (simp add: eval_defs numeral_eq_Suc)
  have c: "list_all event_ok three_frames" "\<not> locked (run init_state three_frames)"
    "data_count (run init_state three_frames) = 3"
    by (simp_all add: eval_defs numeral_eq_Suc)
  show ?thesis
    using placeholder_below_three [of init_state "[]"]
      placeholder_below_three [of "run init_state three_frames" three_frames] a b c
    by (auto simp: init_state_def)
qed

text \<open>
  Claim C7, as the code has it. A call of \<open>animate\<close> never raises on account of an
  empty or a partly filled buffer: with at most two samples it draws the placeholder,
  and in the plot branch the first timestamp, the minimum and maximum and the last time
  are read from non-empty sequences only. What it can raise comes from the conversion
  of a time difference too large for a float (\<open>OverflowError\<close>) and from the plotting
  calls (\<open>ValueError\<close>): a series whose length differs from that of the times, or
  channel values that are not all 32-bit floats and give a limit that is not finite.
  With more than two samples, series of equal length, time differences that fit and
  32-bit channel values it draws the plot; so does every tick of a run, taken while the
  lock is free, on such values.
\<close>

theorem render_tick_guarded:
  "(length ts \<le> 2 \<longrightarrow> animate_backend ts rs ps ys = Inr Waiting)
   \<and> (animate_backend ts rs ps ys = Inl e \<longrightarrow>
        2 < length ts
        \<and> (e = OverflowError \<and> \<not> times_fit ts
            \<or> e = ValueError \<and> times_fit ts
               \<and> (length rs \<noteq> length ts \<or> length ps \<noteq> length ts \<or> length ys \<noteq> length ts
                   \<or> \<not> list_all float32 (rs @ ps @ ys))))
   \<and> (2 < length ts \<and> times_fit ts
        \<and> length rs = length ts \<and> length ps = length ts \<and> length ys = length ts
        \<and> list_all float32 (rs @ ps @ ys) \<longrightarrow>
        animate_backend ts rs ps ys = Inr Plotted)
   \<and> (list_all event_ok es \<and> \<not> locked (run init_state es)
        \<and> times_fit (list_of (timestamps (run init_state es)))
        \<and> values32 (run init_state es) \<longrightarrow>
        (\<exists>d. tick (run init_state es) = Inr d))"
proof (intro conjI impI)
  assume "length ts \<le> 2"
  then show "animate_backend ts rs ps ys = Inr Waiting"
    by (simp add: animate_backend_def)
next
  assume r: "animate_backend ts rs ps ys = Inl e"
  from animate_backend_raises [OF r]
  show "2 < length ts" by simp
  from animate_backend_raises [OF r] animate_backend_plots [of ts rs ps ys] r
  show "e = OverflowError \<and> \<not> times_fit ts
        \<or> e = ValueError \<and> times_fit ts
           \<and> (length rs \<noteq> length ts \<or> length ps \<noteq> length ts \<or> length ys \<noteq> length ts
               \<or> \<not> list_all float32 (rs @ ps @ ys))"
    by auto
next
  assume "2 < length ts \<and> times_fit ts
        \<and> length rs = length ts \<and> length ps = length ts \<and> length ys = length ts
        \<and> list_all float32 (rs @ ps @ ys)"
  then show "animate_backend ts rs ps ys = Inr Plotted"
    by (simp add: animate_backend_plots)
next
  let ?s = "run init_state es"
  assume a: "list_all event_ok es \<and> \<not> locked ?s
        \<and> times_fit (list_of (timestamps ?s)) \<and> values32 ?s"
  then have "inv ?s"
    using inv_init inv_run by blast
  with a have eq: "eq_len ?s"
    using inv_unlockedD by blast
  show "\<exists>d. tick ?s = Inr d"
  proof (cases "2 < length (list_of (timestamps ?s))")
    case True
    have "list_all float32
            (map Finite (list_of (roll_data ?s)) @ map Finite (list_of (pitch_data ?s))
             @ map Finite (list_of (yaw_data ?s)))"
      using a by (simp add: values32_def float32_map_Finite)
    with True a eq show ?thesis
      by (simp add: tick_def animate_backend_plots eq_len_def len_def list_of_def)
  next
    case False
    then show ?thesis
      by (simp add: tick_def animate_backend_def)
  qed
qed

text \<open>
  No sample: the placeholder. Three samples of finite values, as buffers and as the
  state of the run after three entries: the plot.
\<close>

theorem render_tick_guarded_witness:
  "length ([] :: int list) \<le> 2
   \<and> animate_backend [] [] [] [] = Inr Waiting
   \<and> 2 < length [1000, 1500, 2000 :: int]
   \<and> times_fit [1000, 1500, 2000]
   \<and> list_all float32
        ([Finite 0, Finite 1, Finite 2] @ [Finite 1, Finite 2, Finite 3]
         @ [Finite 2, Finite 3, Finite 4])
   \<and> animate_backend [1000, 1500, 2000] [Finite 0, Finite 1, Finite 2]
        [Finite 1, Finite 2, Finite 3] [Finite 2, Finite 3, Finite 4] = Inr Plotted
   \<and> list_all event_ok three_frames
   \<and> \<not> locked (run init_state three_frames)
   \<and> times_fit (list_of (timestamps (run init_state three_frames)))
   \<and> values32 (run init_state three_frames)
   \<and> tick (run init_state three_frames) = Inr Plotted"
proof -
  have a: "times_fit [1000, 1500, 2000]"
    by (simp add: times_fit_def fits_double_def double_limit_def)
  have b: "list_all float32
        ([Finite 0, Finite 1, Finite 2] @ [Finite 1, Finite 2, Finite 3]
         @ [Finite 2, Finite 3, Finite 4])"
    by simp
  have c: "list_all event_ok three_frames" "\<not> locked (run init_state three_frames)"
    by (simp_all add: eval_defs numeral_eq_Suc)
  have d: "list_of (timestamps (run init_state three_frames)) = [1000, 1500, 2000]"
    "list_of (roll_data (run init_state three_frames)) = [0, 1, 2]"
    "list_of (pitch_data (run init_state three_frames)) = [1, 2, 3]"
    "list_of (yaw_data (run init_state three_frames)) = [2, 3, 4]"
    by (simp_all add: eval_defs numeral_eq_Suc)
  have e: "values32 (run init_state three_frames)"
    by (simp add: values32_def d)
  show ?thesis
    using render_tick_guarded [of "[]" "[]" "[]" "[]" ValueError "[]"]
      render_tick_guarded [of "[1000, 1500, 2000]" "[Finite 0, Finite 1, Finite 2]"
        "[Finite 1, Finite 2, Finite 3]" "[Finite 2, Finite 3, Finite 4]" ValueError
        three_frames]
      a b c d e
    by (auto simp: tick_def)
qed

text \<open>
  Claim C7 as stated fails. With three samples whose first roll value is not a number,
  the minimum and the maximum are not numbers and setting the limits raises; so it does
  with an infinite value; and with a yaw series shorter than the others the third plot
  raises.
\<close>

theorem render_tick_counterexample:
  "animate_backend [1000, 1500, 2000] [NaN, Finite 1, Finite 2]
     [Finite 1, Finite 2, Finite 3] [Finite 2, Finite 3, Finite 4] = Inl ValueError
   \<and> animate_backend [1000, 1500, 2000] [Finite 0, Finite 1, PosInf]
     [Finite 1, Finite 2, Finite 3] [Finite 2, Finite 3, Finite 4] = Inl ValueError
   \<and> animate_backend [1000, 1500, 2000, 2500] [Finite 0, Finite 1, Finite 2, Finite 3]
     [Finite 1, Finite 2, Finite 3, Finite 4] [Finite 2, Finite 3, Finite 4] = Inl ValueError"
  by (simp add: animate_backend_def try_bind_def int_div_1000_def fits_double_def
        double_limit_def to_double_def ax_plot_def set_y_limits_def set_lim_def d_sub_def
        Let_def)

text \<open>
  Claim C8. A step changes the total sample counter only at line 149, where it adds
  one; the critical section run on an entry of the subscription passes that line once,
  so each appended entry adds exactly one. The counter never goes down along a run, and
  the totals shown by successive drawings are in non-decreasing order.
\<close>

theorem total_count_monotone:
  "data_count (step s e) =
     (if e = Acq \<and> (\<exists>f. acq s = InLock L149 f) then data_count s + 1 else data_count s)
   \<and> data_count s \<le> data_count (run s es)
   \<and> sorted (map shown_count (screen (run init_state es)))
   \<and> (acq s = AtAppend f \<and> \<not> locked s \<and> subscribed f \<longrightarrow>
        acq (run s (replicate 6 Acq)) = AtDeadline f
        \<and> data_count (run s (replicate 6 Acq)) = data_count s + 1)"
proof -
  have "shown_sorted init_state"
    by (simp add: shown_sorted_def init_state_def)
  then have "shown_sorted (run init_state es)"
    by (rule shown_sorted_run)
  then show ?thesis
    using critical_section_run [of s f]
    by (simp add: data_count_step data_count_run shown_sorted_def)
qed

theorem total_count_monotone_witness:
  "acq (run init_state awaiting_lock) = AtAppend (frame 1000 0)
   \<and> \<not> locked (run init_state awaiting_lock)
   \<and> subscribed (frame 1000 0)
   \<and> data_count (run init_state awaiting_lock) = 0
   \<and> data_count (run (run init_state awaiting_lock) (replicate 6 Acq)) = 1
   \<and> map shown_count (screen (run init_state (Tick # three_frames @ [Tick]))) = [0, 3]"
proof -
  have a: "acq (run init_state awaiting_lock) = AtAppend (frame 1000 0)"
    "\<not> locked (run init_state awaiting_lock)" "subscribed (frame 1000 0)"
    "data_count (run init_state awaiting_lock) = 0"
    by (simp_all add: eval_defs)
  have b: "map shown_count (screen (run init_state (Tick # three_frames @ [Tick]))) = [0, 3]"
    by (simp add: eval_defs numeral_eq_Suc)
  show ?thesis
    using total_count_monotone [of "run init_state awaiting_lock" Acq "[]" "frame 1000 0"] a b
    by simp
qed

text \<open>
  Claim C10. The test of the stop flag comes before the append: an entry reaches the
  append only through a test that found the flag unset, and only the lines of the
  critical section change the buffers or the counter. When the test finds the flag set
  the loop ends, and an entry retrieved while the flag is set is never buffered or
  counted, whatever happens afterwards.
\<close>

theorem stop_check_precedes_append:
  "(acq s = AtCheck f \<and> \<not> running s \<longrightarrow>
      acq (step s Acq) = Returned
      \<and> (\<forall>es. buffers (run (step s Acq) es) = buffers s
               \<and> data_count (run (step s Acq) es) = data_count s))
   \<and> (acq s = AtNext \<and> \<not> running s \<longrightarrow>
      (\<forall>es. buffers (run s (Next (Inr (Some f)) # es)) = buffers s
            \<and> data_count (run s (Next (Inr (Some f)) # es)) = data_count s))
   \<and> (acq (step s e) = AtAppend f \<and> acq s \<noteq> AtAppend f \<longrightarrow>
        e = Acq \<and> acq s = AtCheck f \<and> running s)
   \<and> (buffers (step s e) \<noteq> buffers s \<or> data_count (step s e) \<noteq> data_count s \<longrightarrow>
        e = Acq \<and> (\<exists>l g. acq s = InLock l g))"
proof (intro conjI impI allI)
  assume a: "acq s = AtCheck f \<and> \<not> running s"
  then show "acq (step s Acq) = Returned" by simp
  fix es
  from a have "\<not> running (step s Acq)" "stopped_before_append (acq (step s Acq))"
    "buffers (step s Acq) = buffers s" "data_count (step s Acq) = data_count s"
    by (simp_all add: buffers_def)
  with stopped_stays [of "step s Acq" es]
  show "buffers (run (step s Acq) es) = buffers s"
    "data_count (run (step s Acq) es) = data_count s"
    by simp_all
next
  fix es
  assume a: "acq s = AtNext \<and> \<not> running s"
  then have "stopped_before_append (acq s)" "\<not> running s" by simp_all
  from stopped_stays [OF this(2,1), of "Next (Inr (Some f)) # es"]
  show "buffers (run s (Next (Inr (Some f)) # es)) = buffers s"
    "data_count (run s (Next (Inr (Some f)) # es)) = data_count s"
    by simp_all
next
  assume "acq (step s e) = AtAppend f \<and> acq s \<noteq> AtAppend f"
  then show "e = Acq" "acq s = AtCheck f" "running s"
    using reach_append by blast+
next
  assume c: "buffers (step s e) \<noteq> buffers s \<or> data_count (step s e) \<noteq> data_count s"
  show "e = Acq" "\<exists>l g. acq s = InLock l g"
    using c buffers_step [of e s] data_count_step [of s e]
    by (auto split: if_splits)
qed

theorem stop_check_precedes_append_witness:
  "acq (run init_state stopped_at_check) = AtCheck (frame 1000 0)
   \<and> \<not> running (run init_state stopped_at_check)
   \<and> acq (step (run init_state stopped_at_check) Acq) = Returned
   \<and> data_count (run (step (run init_state stopped_at_check) Acq) (replicate 8 Acq)) = 0
   \<and> acq (run init_state stopped_run) = AtNext
   \<and> \<not> running (run init_state stopped_run)
   \<and> data_count (run init_state stopped_run) = 1
   \<and> data_count (run (run init_state stopped_run) (iteration (frame 1500 1))) = 1
   \<and> buffers (run (run init_state stopped_run) (iteration (frame 1500 1)))
       = buffers (run init_state stopped_run)"
proof -
  have a: "acq (run init_state stopped_at_check) = AtCheck (frame 1000 0)"
    "\<not> running (run init_state stopped_at_check)"
    "data_count (run init_state stopped_at_check) = 0"
    by (simp_all add: eval_defs)
  have b: "acq (run init_state stopped_run) = AtNext"
    "\<not> running (run init_state stopped_run)"
    "data_count (run init_state stopped_run) = 1"
    by (simp_all add: eval_defs numeral_eq_Suc)
  show ?thesis
    using stop_check_precedes_append
            [of "run init_state stopped_at_check" "frame 1000 0" Acq, THEN conjunct1]
          stop_check_precedes_append
            [of "run init_state stopped_run" "frame 1500 1" Acq, THEN conjunct2, THEN conjunct1]
          a b
    by (simp add: iteration_def)
qed

text \<open>
  Claim C4, as the code has it. The stop signal is the one flag \<open>running\<close>, true when
  the run starts. Only a keyboard interrupt delivered to the main loop sets it to
  stopped; the test of the deadline and the end of the iterator leave it as it is (the
  main loop notices the end of the acquisition through \<open>is_alive\<close>). The acquisition
  loop reads it in its test at the head of each iteration, the main loop in its loop
  condition, and once stopped it stays stopped for the rest of the run.
\<close>

theorem stop_signal_only_set_by_interrupt:
  "running init_state
   \<and> (running (run s es) \<longrightarrow> running s)
   \<and> (running s \<and> \<not> running (step s e) \<longrightarrow> e = Interrupt \<and> main_pc s = MainLoop)
   \<and> (main_pc s = MainLoop \<longrightarrow> \<not> running (step s Interrupt))
   \<and> (acq s = AtCheck f \<longrightarrow>
        acq (step s Acq) = (if running s then AtAppend f else Returned))
   \<and> (main_pc s = MainLoop \<longrightarrow>
        main_pc (step s LoopTest) = (if running s \<and> is_alive s then MainLoop else MainJoin))"
  using running_run [of s es]
  by (auto simp: init_state_def running_step split: if_splits)

theorem stop_signal_only_set_by_interrupt_witness:
  "running init_state \<and> main_pc init_state = MainLoop
   \<and> \<not> running (step init_state Interrupt)
   \<and> \<not> running (run (step init_state Interrupt) timeout_run)
   \<and> main_pc (step init_state LoopTest) = MainLoop
   \<and> acq (run init_state stopped_at_check) = AtCheck (frame 1000 0)
   \<and> acq (step (run init_state stopped_at_check) Acq) = Returned"
proof -
  have a: "acq (run init_state stopped_at_check) = AtCheck (frame 1000 0)"
    "\<not> running (run init_state stopped_at_check)"
    by (simp_all add: eval_defs)
  have b: "running init_state" "main_pc init_state = MainLoop" "is_alive init_state"
    by (simp_all add: eval_defs)
  show ?thesis
    using stop_signal_only_set_by_interrupt
            [of "step init_state Interrupt" timeout_run Interrupt "frame 1000 0"]
          stop_signal_only_set_by_interrupt [of init_state "[]" Interrupt "frame 1000 0"]
          stop_signal_only_set_by_interrupt
            [of "run init_state stopped_at_check" "[]" Acq "frame 1000 0"]
          a b
    by auto
qed

text \<open>
  Claim C4 as stated fails: in the run where the loop ends at its test of the deadline,
  and in the run where the iterator ends by itself, the acquisition thread has returned,
  the main thread has finished, and the flag is still true.
\<close>

theorem stop_signal_counterexample:
  "acq (run init_state deadline_test) = AtDeadline (frame 1000 0)
   \<and> endTime (run init_state deadline_test) < clock (run init_state deadline_test)
   \<and> acq (run init_state timeout_run) = Returned
   \<and> main_pc (run init_state timeout_run) = MainExit
   \<and> running (run init_state timeout_run)
   \<and> acq (run init_state completed_run) = Returned
   \<and> main_pc (run init_state completed_run) = MainExit
   \<and> running (run init_state completed_run)"
  by (simp add: eval_defs numeral_eq_Suc)

text \<open>
  Claim C5, as the code has it. The deadline is 60 seconds after the logger started.
  It is tested at the end of an iteration only, after an entry has been received and
  appended: there the loop ends exactly when the clock is strictly past the deadline,
  whatever the stop flag says. While the loop waits for an entry nothing but the
  iterator moves it; with the deadline passed, the next entry of the subscription is
  still appended and then ends the loop.
\<close>

theorem deadline_tested_after_each_frame:
  "(acq s = AtLogger \<longrightarrow> endTime (step s (LoggerConnected None)) = clock s + 60)
   \<and> (acq s = AtDeadline f \<longrightarrow>
        acq (step s Acq) = (if endTime s < clock s then Returned else AtNext))
   \<and> (acq s = AtNext \<and> (\<forall>r. e \<noteq> Next r) \<longrightarrow> acq (step s e) = AtNext)
   \<and> (acq s = AtNext \<and> endTime s < clock s \<and> running s \<and> \<not> locked s \<and> subscribed f \<longrightarrow>
        acq (run s (iteration f)) = Returned
        \<and> data_count (run s (iteration f)) = data_count s + 1)"
proof (intro conjI impI)
  assume "acq s = AtLogger"
  then show "endTime (step s (LoggerConnected None)) = clock s + 60" by simp
next
  assume "acq s = AtDeadline f"
  then show "acq (step s Acq) = (if endTime s < clock s then Returned else AtNext)"
    by (simp add: Let_def)
next
  assume "acq s = AtNext \<and> (\<forall>r. e \<noteq> Next r)"
  then show "acq (step s e) = AtNext"
    by (cases e) (auto split: main_pc.splits sum.splits)
next
  assume a: "acq s = AtNext \<and> endTime s < clock s \<and> running s \<and> \<not> locked s \<and> subscribed f"
  obtain t d n where f: "f = (t, d, n)" by (cases f)
  from a f obtain r p y where
    v: "d ''stabilizer.roll'' = Some r" "d ''stabilizer.pitch'' = Some p"
       "d ''stabilizer.yaw'' = Some y"
    using subscribedD by blast
  show "acq (run s (iteration f)) = Returned"
    using a by (simp add: iteration_def numeral_eq_Suc f v try_bind_def getitem_dict_def Let_def)
  show "data_count (run s (iteration f)) = data_count s + 1"
    using a by (simp add: iteration_def numeral_eq_Suc f v try_bind_def getitem_dict_def Let_def)
qed

theorem deadline_tested_after_each_frame_witness:
  "acq (run init_state past_deadline) = AtNext
   \<and> endTime (run init_state past_deadline) < clock (run init_state past_deadline)
   \<and> running (run init_state past_deadline) \<and> \<not> locked (run init_state past_deadline)
   \<and> subscribed (frame 1000 0)
   \<and> acq (step (run init_state past_deadline) Tick) = AtNext
   \<and> acq (run (run init_state past_deadline) (iteration (frame 1000 0))) = Returned
   \<and> data_count (run (run init_state past_deadline) (iteration (frame 1000 0))) = 1"
proof -
  have a: "acq (run init_state past_deadline) = AtNext"
    "endTime (run init_state past_deadline) < clock (run init_state past_deadline)"
    "running (run init_state past_deadline)" "\<not> locked (run init_state past_deadline)"
    "subscribed (frame 1000 0)" "data_count (run init_state past_deadline) = 0"
    by (simp_all add: eval_defs)
  show ?thesis
    using deadline_tested_after_each_frame
            [of "run init_state past_deadline" "frame 1000 0" Tick] a
    by simp
qed

text \<open>
  Claim C5 as stated fails: with the clock at 1000 seconds, far past the deadline of 60,
  and no entry arriving, the acquisition thread is still alive and waiting, whatever the
  other thread and the timer do.
\<close>

theorem deadline_counterexample:
  "endTime (run init_state silent_run) = 60
   \<and> clock (run init_state silent_run) = 1000
   \<and> is_alive (run init_state silent_run)
   \<and> acq (run init_state silent_run) = AtNext"
  by (simp add: eval_defs)

text \<open>
  Claim C9. When opening the link, connecting the logger or the iterator raises an
  instance of \<open>Exception\<close>, the acquisition thread prints the failure and the hint and
  returns; and in every run in which the link raises nothing but instances of
  \<open>Exception\<close>, no exception leaves \<open>data_collection_thread\<close>.
\<close>

theorem link_failure_reported:
  "(is_Exception e \<and> acq s = AtConnect \<longrightarrow>
      acq (step s (LinkOpened (Some e))) = Returned
      \<and> out (step s (LinkOpened (Some e))) = out s @ [ErrorConnecting e, CheckDrone])
   \<and> (is_Exception e \<and> acq s = AtLogger \<longrightarrow>
      acq (step s (LoggerConnected (Some e))) = Returned
      \<and> out (step s (LoggerConnected (Some e))) = out s @ [ErrorConnecting e, CheckDrone])
   \<and> (is_Exception e \<and> acq s = AtNext \<longrightarrow>
      acq (step s (Next (Inl e))) = Returned
      \<and> out (step s (Next (Inl e))) = out s @ [ErrorConnecting e, CheckDrone])
   \<and> (list_all raises_Exception es \<longrightarrow> \<not> escaped (acq (run init_state es)))"
  using not_escaped_run [of init_state es]
  by (auto simp: except_Exception_def init_state_def)

theorem link_failure_reported_witness:
  "is_Exception (Exception ''Too many packets lost'')
   \<and> acq init_state = AtConnect
   \<and> acq (step init_state (LinkOpened (Some (Exception ''Too many packets lost'')))) = Returned
   \<and> out (step init_state (LinkOpened (Some (Exception ''Too many packets lost''))))
       = [ErrorConnecting (Exception ''Too many packets lost''), CheckDrone]
   \<and> list_all raises_Exception
        (started @ [Next (Inl (Exception ''Too many packets lost''))])
   \<and> acq (run init_state (started @ [Next (Inl (Exception ''Too many packets lost''))]))
       = Returned"
proof -
  have a: "acq init_state = AtConnect" "out init_state = []"
    by (simp_all add: init_state_def)
  have b: "acq (run init_state (started @ [Next (Inl (Exception ''Too many packets lost''))]))
       = Returned"
    by (simp add: eval_defs)
  show ?thesis
    using link_failure_reported
            [of "Exception ''Too many packets lost''" init_state
                "started @ [Next (Inl (Exception ''Too many packets lost''))]"] a b
    by (simp add: started_def)
qed

section \<open>The claim about \<open>scripts/test_hover.py\<close>\<close>

lemmas hover_defs = hover_main_def with_stmt_def seq_def issue_def arming_def flight_script_def

text \<open>
  Claim C1. Once the flight scope is entered (link opened, arming sent, take-off
  done), let the first \<open>k\<close> calls of the script return and, if there is a next one, let
  it raise \<open>e\<close> (an error of a motion command, or a keyboard interrupt). Then the
  calls made are those up to and including the failing one, followed by one \<open>Land\<close>
  and then one \<open>Close_link\<close>, and nothing else: exactly one landing and exactly one
  disconnect, in that order, on the normal path (\<open>k\<close> is the length of the script) as
  on every failing one. With the landing and the disconnect delivered, the caller then
  receives the error \<open>e\<close> of the script, and a normal return when nothing raised.
\<close>

theorem landing_on_every_exit:
  assumes entered: "env 0 Open_link = None" "env 1 (Send_arming_request True) = None"
      "env 2 (Sleep 1) = None" "env 3 Take_off = None"
    and k: "k \<le> length flight_script"
    and before: "\<forall>j<k. env (4 + j) (flight_script ! j) = None"
    and at: "k < length flight_script \<longrightarrow> env (4 + k) (flight_script ! k) = Some e"
  shows "snd (hover_main env []) =
           [Open_link, Send_arming_request True, Sleep 1, Take_off]
           @ take (Suc k) flight_script @ [Land, Close_link]
         \<and> count_list (snd (hover_main env [])) Land = 1
         \<and> count_list (snd (hover_main env [])) Close_link = 1
         \<and> (k < length flight_script \<and> env (5 + k) Land = None
              \<and> env (6 + k) Close_link = None \<longrightarrow>
            fst (hover_main env []) = Inl e)
         \<and> (k = length flight_script \<and> env 9 Land = None \<and> env 10 Close_link = None \<longrightarrow>
            fst (hover_main env []) = Inr ())"
proof -
  have b0: "0 < k \<Longrightarrow> env 4 (Sleep 1) = None"
    using before [rule_format, of 0] by (simp add: flight_script_def)
  have b1: "1 < k \<Longrightarrow> env 5 (Up 0.7) = None"
    using before [rule_format, of 1] by (simp add: flight_script_def)
  have b2: "2 < k \<Longrightarrow> env 6 (Down 0.7) = None"
    using before [rule_format, of 2] by (simp add: flight_script_def)
  have b3: "3 < k \<Longrightarrow> env 7 (Sleep 1) = None"
    using before [rule_format, of 3] by (simp add: flight_script_def)
  have b4: "4 < k \<Longrightarrow> env 8 Stop = None"
    using before [rule_format, of 4] by (simp add: flight_script_def)
  from k consider "k = 0" | "k = 1" | "k = 2" | "k = 3" | "k = 4" | "k = 5"
    by (auto simp: flight_script_def le_Suc_eq numeral_eq_Suc)
  then show ?thesis
  proof cases
    case 1
    with at have "env 4 (Sleep 1) = Some e" by (simp add: flight_script_def)
    with entered 1 show ?thesis
      by (auto simp: hover_defs numeral_eq_Suc split: option.splits)
  next
    case 2
    with at have "env 5 (Up 0.7) = Some e" by (simp add: flight_script_def)
    with entered 2 b0 show ?thesis
      by (auto simp: hover_defs numeral_eq_Suc split: option.splits)
  next
    case 3
    with at have "env 6 (Down 0.7) = Some e" by (simp add: flight_script_def)
    with entered 3 b0 b1 show ?thesis
      by (auto simp: hover_defs numeral_eq_Suc split: option.splits)
  next
    case 4
    with at have "env 7 (Sleep 1) = Some e" by (simp add: flight_script_def)
    with entered 4 b0 b1 b2 show ?thesis
      by (auto simp: hover_defs numeral_eq_Suc split: option.splits)
  next
    case 5
    with at have "env 8 Stop = Some e" by (simp add: flight_script_def)
    with entered 5 b0 b1 b2 b3 show ?thesis
      by (auto simp: hover_defs numeral_eq_Suc split: option.splits)
  next
    case 6
    with entered b0 b1 b2 b3 b4 show ?thesis
      by (auto simp: hover_defs numeral_eq_Suc split: option.splits)
  qed
qed

text \<open>
  The ascent times out: one landing, one disconnect, then the timeout reaches the
  caller. The same for an interrupt in the last sleep, and for a flight without error.
\<close>

theorem landing_on_every_exit_witness:
  "ascend_times_out 0 Open_link = None
   \<and> ascend_times_out 1 (Send_arming_request True) = None
   \<and> ascend_times_out 2 (Sleep 1) = None
   \<and> ascend_times_out 3 Take_off = None
   \<and> 1 \<le> length flight_script
   \<and> ascend_times_out 4 (flight_script ! 0) = None
   \<and> ascend_times_out (4 + 1) (flight_script ! 1) = Some (Exception ''MotionTimeout'')
   \<and> snd (hover_main ascend_times_out []) =
       [Open_link, Send_arming_request True, Sleep 1, Take_off, Sleep 1, Up 0.7,
        Land, Close_link]
   \<and> fst (hover_main ascend_times_out []) = Inl (Exception ''MotionTimeout'')
   \<and> snd (hover_main interrupted []) =
       [Open_link, Send_arming_request True, Sleep 1, Take_off, Sleep 1, Up 0.7, Down 0.7,
        Sleep 1, Land, Close_link]
   \<and> fst (hover_main interrupted []) = Inl KeyboardInterrupt
   \<and> snd (hover_main all_ok []) =
       [Open_link, Send_arming_request True, Sleep 1, Take_off, Sleep 1, Up 0.7, Down 0.7,
        Sleep 1, Stop, Land, Close_link]
   \<and> fst (hover_main all_ok []) = Inr ()"
proof -
  have a: "\<forall>j<1. ascend_times_out (4 + j) (flight_script ! j) = None"
    by (simp add: ascend_times_out_def flight_script_def)
  have b: "\<forall>j<3. interrupted (4 + j) (flight_script ! j) = None"
    by (simp add: interrupted_def)
  show ?thesis
    using landing_on_every_exit [of ascend_times_out 1 "Exception ''MotionTimeout''"]
      landing_on_every_exit [of interrupted 3 KeyboardInterrupt]
      landing_on_every_exit [of all_ok 5 KeyboardInterrupt] a b
    by (simp add: ascend_times_out_def all_ok_def interrupted_def flight_script_def)
qed

end
